theory Spec2Isabelle
  imports Complex_Main "HOL-Library.AList" "HOL-Library.Sublist" "HOL-Library.Multiset"
begin

section \<open>Strings\<close>

text \<open>
  A JavaScript string is modelled as a \<^typ>\<open>string\<close>, and the model is that of
  strings of ASCII characters. A character outside ASCII is kept as it is: it has no
  case, is no word character and no white space (JavaScript gives a few of them a
  lower-case form and counts some as white space).
\<close>

definition is_upper :: "char \<Rightarrow> bool" where
  "is_upper c = (let n = (of_char c :: int) in 65 \<le> n \<and> n \<le> 90)"

definition is_lower :: "char \<Rightarrow> bool" where
  "is_lower c = (let n = (of_char c :: int) in 97 \<le> n \<and> n \<le> 122)"

definition is_digit :: "char \<Rightarrow> bool" where
  "is_digit c = (let n = (of_char c :: int) in 48 \<le> n \<and> n \<le> 57)"

text \<open>The character class \<open>\w\<close> of a regular expression: \<open>[A-Za-z0-9_]\<close>.\<close>

definition is_word :: "char \<Rightarrow> bool" where
  "is_word c = (is_upper c \<or> is_lower c \<or> is_digit c \<or> c = CHR ''_'')"

definition lower_char :: "char \<Rightarrow> char" where
  "lower_char c = (if is_upper c then char_of ((of_char c :: int) + 32) else c)"

text \<open>\<open>String.prototype.toLowerCase\<close>.\<close>

definition toLowerCase :: "string \<Rightarrow> string" where
  "toLowerCase s = map lower_char s"

text \<open>\<open>String.prototype.startsWith\<close>, \<open>endsWith\<close> and \<open>includes\<close>.\<close>

fun startsWith :: "string \<Rightarrow> string \<Rightarrow> bool" where
  "startsWith s [] = True"
| "startsWith [] (w # ws) = False"
| "startsWith (c # cs) (w # ws) = (c = w \<and> startsWith cs ws)"

definition endsWith :: "string \<Rightarrow> string \<Rightarrow> bool" where
  "endsWith s w = startsWith (rev s) (rev w)"

fun includes_str :: "string \<Rightarrow> string \<Rightarrow> bool" where
  "includes_str [] w = (w = [])"
| "includes_str (c # cs) w = (startsWith (c # cs) w \<or> includes_str cs w)"

text \<open>
  White space of \<open>String.prototype.trim\<close> within ASCII: tab, line feed, vertical tab,
  form feed, carriage return and space.
\<close>

definition is_space :: "char \<Rightarrow> bool" where
  "is_space c = (let n = (of_char c :: int) in (9 \<le> n \<and> n \<le> 13) \<or> n = 32)"

definition trim :: "string \<Rightarrow> string" where
  "trim s = rev (dropWhile is_space (rev (dropWhile is_space s)))"

text \<open>\<open>Array.prototype.join\<close> on an array of strings.\<close>

fun join :: "string list \<Rightarrow> string \<Rightarrow> string" where
  "join [] sep = []"
| "join [x] sep = x"
| "join (x # y # ys) sep = x @ sep @ join (y # ys) sep"

text \<open>
  \<open>Array.prototype.slice(0, k)\<close> for an integer \<open>k\<close>: a negative \<open>k\<close> counts from the
  end of the array.
\<close>

definition slice0 :: "'a list \<Rightarrow> int \<Rightarrow> 'a list" where
  "slice0 xs k = (if k < 0 then take (nat (int (length xs) + k)) xs else take (nat k) xs)"

section \<open>Tokenizer\<close>

text \<open>
  \<open>s.split(/\W+/)\<close>: the pieces of \<open>s\<close> between the maximal runs of non-word
  characters, the empty pieces at both ends included. A word character extends the
  first piece of the rest; a non-word character starts a separator, which takes the
  non-word characters that follow, and an empty piece stands before it.
\<close>

function split_W :: "string \<Rightarrow> string list" where
  "split_W [] = [[]]"
| "split_W (c # cs) =
     (let rest = split_W (if is_word c then cs else dropWhile (\<lambda>x. \<not> is_word x) cs)
      in if is_word c
         then (case rest of [] \<Rightarrow> [[c]] | w # ws \<Rightarrow> (c # w) # ws)
         else [] # rest)"
  by pat_completeness auto
termination
  by (relation "measure length") (auto simp: less_Suc_eq_le length_dropWhile_le)

text \<open>
  \<^verbatim>\<open>function toks(s){ return String(s||'').toLowerCase().split(/\W+/).filter(Boolean); }\<close>
  An empty string is the only falsy string, so \<open>filter(Boolean)\<close> drops the empty pieces.
\<close>

definition toks :: "string \<Rightarrow> string list" where
  "toks s = filter (\<lambda>t. t \<noteq> []) (split_W (toLowerCase s))"

section \<open>Vocabulary\<close>

record doc =
  docId :: string
  docText :: string

text \<open>
  \<open>buildVocab\<close> tabulates the term frequencies in a plain object \<open>f = {}\<close>. The
  object is modelled by its own properties in creation order. A property holds a number,
  or a string once a non-number has been added to.
\<close>

datatype cell = Count nat | Text string

type_synonym table = "(string \<times> cell) list"

text \<open>
  The two property names made of lower-case word characters that every object inherits
  from \<open>Object.prototype\<close>, with the string that \<open>+ 1\<close> turns the inherited value
  into: the function \<open>Object\<close> and the prototype object itself.
\<close>

definition inherited :: "string \<Rightarrow> string option" where
  "inherited t =
     (if t = ''constructor'' then Some ''function Object() { [native code] }''
      else if t = ''__proto__'' then Some ''[object Object]''
      else None)"

text \<open>
  \<^verbatim>\<open>f[t]=(f[t]||0)+1\<close>
  An own number is incremented (\<open>0\<close> is falsy and gives \<open>1\<close> all the same); an own
  string is truthy unless empty, and \<open>+ 1\<close> appends the character \<open>1\<close>. A name that is
  not an own property reads the inherited value: the assignment then creates an own
  property, except for \<open>__proto__\<close>, whose setter ignores a value that is no object.
\<close>

definition bump :: "table \<Rightarrow> string \<Rightarrow> table" where
  "bump f t =
     (case map_of f t of
        Some (Count n) \<Rightarrow> AList.update t (Count (n + 1)) f
      | Some (Text s) \<Rightarrow> AList.update t (if s = [] then Count 1 else Text (s @ ''1'')) f
      | None \<Rightarrow>
          (case inherited t of
             None \<Rightarrow> AList.update t (Count 1) f
           | Some v \<Rightarrow> if t = ''__proto__'' then f else AList.update t (Text (v @ ''1'')) f))"

text \<open>
  \<open>Object.keys\<close> lists the own property names that are array indices (the canonical
  decimal numerals up to \<open>2^32 - 2\<close>) first, in ascending numeric order, and the other
  names after them, in creation order.
\<close>

definition digit_val :: "char \<Rightarrow> int" where
  "digit_val c = (of_char c :: int) - 48"

definition index_value :: "string \<Rightarrow> int" where
  "index_value s = foldl (\<lambda>n c. 10 * n + digit_val c) 0 s"

definition is_array_index :: "string \<Rightarrow> bool" where
  "is_array_index s =
     (s \<noteq> [] \<and> list_all is_digit s \<and> (s = ''0'' \<or> hd s \<noteq> CHR ''0'')
      \<and> index_value s \<le> 4294967294)"

definition Object_keys :: "table \<Rightarrow> string list" where
  "Object_keys f =
     sort_key index_value (filter is_array_index (map fst f))
     @ filter (\<lambda>k. \<not> is_array_index k) (map fst f)"

text \<open>
  \<^verbatim>\<open>.sort((a,b)=>f[b]-f[a])\<close>
  \<open>Array.prototype.sort\<close> is stable. When every property is a number the comparator is
  consistent and the result is the stable sort by descending count. When some property
  is a string the difference is \<open>NaN\<close> and the language leaves the order to the
  implementation: that order is the parameter \<open>engine\<close>. An array of fewer than two
  elements is never compared.
\<close>

type_synonym engine = "table \<Rightarrow> string list \<Rightarrow> string list"

definition count_of :: "table \<Rightarrow> string \<Rightarrow> nat" where
  "count_of f k = (case map_of f k of Some (Count n) \<Rightarrow> n | _ \<Rightarrow> 0)"

definition is_count :: "cell \<Rightarrow> bool" where
  "is_count c = (case c of Count n \<Rightarrow> True | Text s \<Rightarrow> False)"

definition sort_by_count :: "engine \<Rightarrow> table \<Rightarrow> string list \<Rightarrow> string list" where
  "sort_by_count engine f ks =
     (if length ks < 2 then ks
      else if list_all (\<lambda>p. is_count (snd p)) f then sort_key (\<lambda>k. - int (count_of f k)) ks
      else engine f ks)"

text \<open>
  \<^verbatim>\<open>function buildVocab(docs, maxV=400){ const f={};
    docs.forEach(d=> toks(d.text).forEach(t=> f[t]=(f[t]||0)+1));
    return Object.keys(f).sort((a,b)=>f[b]-f[a]).slice(0,maxV); }\<close>
  The bound is an integer. The defaults of omitted arguments (\<open>maxV=400\<close> here, \<open>k=3\<close>
  and \<open>maxTries=3\<close> below) are the values that every call in the source passes.
\<close>

definition tabulate :: "'a doc_scheme list \<Rightarrow> table" where
  "tabulate docs = fold (\<lambda>d f. fold (\<lambda>t f. bump f t) (toks (docText d)) f) docs []"

definition buildVocab :: "engine \<Rightarrow> 'a doc_scheme list \<Rightarrow> int \<Rightarrow> string list" where
  "buildVocab engine docs maxV =
     (let f = tabulate docs in slice0 (sort_by_count engine f (Object_keys f)) maxV)"

text \<open>\<^verbatim>\<open>function tfvec(text,vocab){ const t=toks(text); return vocab.map(w => t.filter(x=>x===w).length); }\<close>\<close>

definition tfvec :: "string \<Rightarrow> string list \<Rightarrow> nat list" where
  "tfvec txt vocab = (let t = toks txt in map (\<lambda>w. length (filter (\<lambda>x. x = w) t)) vocab)"

section \<open>Similarity and retrieval\<close>

text \<open>
  \<^verbatim>\<open>function dot(a,b){ let s=0; for(let i=0;i<a.length;i++) s+=a[i]*b[i]; return s; }
  function norm(a){ return Math.sqrt(dot(a,a)); }
  function cosine(a,b){ if(!a||!b) return 0; return dot(a,b)/(norm(a)*norm(b)+1e-12); }\<close>
  The vectors are arrays of counts; an array is truthy. The loop of \<open>dot\<close> runs over the
  indices of \<open>a\<close>; the model is for a \<open>b\<close> at least as long as \<open>a\<close> (for a shorter \<open>b\<close>
  the source adds \<open>NaN\<close>). The double-precision numbers of the source are idealised as
  real numbers; the theorems on the ranking hold for any similarity function.
\<close>

fun dot :: "nat list \<Rightarrow> nat list \<Rightarrow> nat" where
  "dot (x # xs) (y # ys) = x * y + dot xs ys"
| "dot xs ys = 0"

definition norm_vec :: "nat list \<Rightarrow> real" where
  "norm_vec a = sqrt (real (dot a a))"

definition cosine :: "nat list \<Rightarrow> nat list \<Rightarrow> real" where
  "cosine a b = real (dot a b) / (norm_vec a * norm_vec b + 1 / 10 ^ 12)"

record edoc = doc +
  embedding :: "nat list"

text \<open>\<^verbatim>\<open>let vectorStore = { docs: [], vocab: [] };\<close>\<close>

record store =
  docs :: "edoc list"
  vocab :: "string list"

text \<open>
  \<^verbatim>\<open>function retrieveTopK(query,k=3){
    if(!vectorStore.docs || vectorStore.docs.length===0) return [];
    const qv = tfvec(query, vectorStore.vocab);
    const scored = vectorStore.docs.map(d => ({ doc:d, score: cosine(qv, d.embedding) }));
    return scored.sort((a,b)=>b.score-a.score).slice(0,k).map(x=>x.doc);
  }\<close>
  The scores are finite numbers, so the comparator is consistent and the stable sort is
  the sort by descending score that keeps the storage order of equal scores.
\<close>

definition retrieveTopK_with ::
  "(nat list \<Rightarrow> nat list \<Rightarrow> real) \<Rightarrow> store \<Rightarrow> string \<Rightarrow> int \<Rightarrow> edoc list" where
  "retrieveTopK_with sim vs query k =
     (if docs vs = [] then []
      else
        let qv = tfvec query (vocab vs);
            scored = map (\<lambda>d. (d, sim qv (embedding d))) (docs vs)
        in map fst (slice0 (sort_key (\<lambda>x. - snd x) scored) k))"

definition retrieveTopK :: "store \<Rightarrow> string \<Rightarrow> int \<Rightarrow> edoc list" where
  "retrieveTopK = retrieveTopK_with cosine"

section \<open>Process state\<close>

text \<open>
  The environment variables the source reads. An unset variable is the empty string.
\<close>

record config =
  GOOGLE_API_KEY :: string
  OPENAI_API_KEY :: string
  HUGGINGFACE_API_KEY :: string
  BOOKING_LINK :: string

datatype provider = google | openai | huggingface

text \<open>
  \<^verbatim>\<open>const providers = [];
  if(GOOGLE_API_KEY) providers.push('google');
  if(OPENAI_API_KEY) providers.push('openai');
  if(HUGGINGFACE_API_KEY) providers.push('huggingface');\<close>
\<close>

definition providers :: "config \<Rightarrow> provider list" where
  "providers cfg =
     (let ps = [];
          ps = (if GOOGLE_API_KEY cfg \<noteq> [] then ps @ [google] else ps);
          ps = (if OPENAI_API_KEY cfg \<noteq> [] then ps @ [openai] else ps);
          ps = (if HUGGINGFACE_API_KEY cfg \<noteq> [] then ps @ [huggingface] else ps)
      in ps)"

datatype error = Error string

text \<open>
  The journal records, in order, every call of \<open>retrieveTopK\<close> and of
  \<open>generateWithRotation\<close> and every request sent to a provider, with its outcome. It is
  not part of the source: it makes the calls of a request observable.
\<close>

datatype event =
    Retrieve string int
  | Generate string int
  | Call provider string "error + string"

record state =
  providerIndex :: nat
  vectorStore :: store
  journal :: "event list"

text \<open>\<^verbatim>\<open>let providerIndex = 0;  let vectorStore = { docs: [], vocab: [] };\<close>\<close>

definition initial_state :: state where
  "initial_state = \<lparr>providerIndex = 0, vectorStore = \<lparr>docs = [], vocab = []\<rparr>, journal = []\<rparr>"

section \<open>Provider rotation\<close>

text \<open>
  \<^verbatim>\<open>function getNextProvider(){ if(providers.length===0) return null;
    const p = providers[providerIndex % providers.length]; providerIndex++; return p; }\<close>
\<close>

definition getNextProvider :: "config \<Rightarrow> state \<Rightarrow> provider option \<times> state" where
  "getNextProvider cfg s =
     (if length (providers cfg) = 0 then (None, s)
      else
        let p = providers cfg ! (providerIndex s mod length (providers cfg))
        in (Some p, s\<lparr>providerIndex := providerIndex s + 1\<rparr>))"

text \<open>
  The three helpers \<open>callGoogleGenerative\<close>, \<open>callOpenAIChat\<close> and \<open>callHuggingFace\<close>
  exchange one HTTP request with an external service and return the generated text or
  throw. The services are the parameter \<open>net\<close>: the outcome of a request, given all that
  happened before it.
\<close>

type_synonym network = "event list \<Rightarrow> provider \<Rightarrow> string \<Rightarrow> error + string"

definition callProvider ::
  "network \<Rightarrow> provider \<Rightarrow> string \<Rightarrow> state \<Rightarrow> (error + string) \<times> state" where
  "callProvider net p prompt s =
     (let r = net (journal s) p prompt
      in (r, s\<lparr>journal := journal s @ [Call p prompt r]\<rparr>))"

text \<open>
  \<^verbatim>\<open>async function generateWithRotation(prompt, maxTries = 3){
    if(providers.length===0) throw new Error('No providers configured');
    const tried = new Set(); let lastErr = null;
    for(let attempt=0; attempt<Math.min(maxTries, providers.length); attempt++){
      const provider = getNextProvider();
      if(!provider || tried.has(provider)) continue;
      tried.add(provider);
      try{ ... return await call...(prompt); }
      catch(e){ console.error(...); lastErr = e; continue; }
    }
    throw lastErr || new Error('All providers failed');
  }\<close>
  \<open>rotation\<close> is the loop, with the number of iterations that remain, as it runs when
  no other request touches \<open>providerIndex\<close> while a provider call is awaited.
\<close>

fun rotation ::
  "config \<Rightarrow> network \<Rightarrow> string \<Rightarrow> nat \<Rightarrow> provider list \<Rightarrow> error option \<Rightarrow> state
   \<Rightarrow> (error + string) \<times> state" where
  "rotation cfg net prompt 0 tried lastErr s =
     (Inl (case lastErr of None \<Rightarrow> Error ''All providers failed'' | Some e \<Rightarrow> e), s)"
| "rotation cfg net prompt (Suc n) tried lastErr s =
     (case getNextProvider cfg s of
        (None, s1) \<Rightarrow> rotation cfg net prompt n tried lastErr s1
      | (Some p, s1) \<Rightarrow>
          if p \<in> set tried then rotation cfg net prompt n tried lastErr s1
          else
            (case callProvider net p prompt s1 of
               (Inr generated, s2) \<Rightarrow> (Inr generated, s2)
             | (Inl e, s2) \<Rightarrow> rotation cfg net prompt n (p # tried) (Some e) s2))"

definition generateWithRotation ::
  "config \<Rightarrow> network \<Rightarrow> string \<Rightarrow> int \<Rightarrow> state \<Rightarrow> (error + string) \<times> state" where
  "generateWithRotation cfg net prompt maxTries s =
     (let s0 = s\<lparr>journal := journal s @ [Generate prompt maxTries]\<rparr>
      in if length (providers cfg) = 0 then (Inl (Error ''No providers configured''), s0)
         else rotation cfg net prompt
                (nat (min maxTries (int (length (providers cfg))))) [] None s0)"

text \<open>
  The loop awaits every provider call, and \<open>providerIndex\<close> belongs to the process:
  while a call is awaited, other requests run and take providers with
  \<open>getNextProvider\<close>. The parameter \<open>others\<close> gives, for a call made after the history
  \<open>h\<close>, how many times other requests advanced \<open>providerIndex\<close> before the call
  settled. \<open>rotation_among\<close> and \<open>generateWithRotation_among\<close> are the loop and the
  function among such requests; with no other request they are \<open>rotation\<close> and
  \<open>generateWithRotation\<close>.
\<close>

type_synonym others = "event list \<Rightarrow> nat"

definition awaitProvider ::
  "others \<Rightarrow> network \<Rightarrow> provider \<Rightarrow> string \<Rightarrow> state \<Rightarrow> (error + string) \<times> state" where
  "awaitProvider others net p prompt s =
     (let r = net (journal s) p prompt
      in (r, s\<lparr>providerIndex := providerIndex s + others (journal s),
               journal := journal s @ [Call p prompt r]\<rparr>))"

fun rotation_among ::
  "config \<Rightarrow> others \<Rightarrow> network \<Rightarrow> string \<Rightarrow> nat \<Rightarrow> provider list \<Rightarrow> error option \<Rightarrow> state
   \<Rightarrow> (error + string) \<times> state" where
  "rotation_among cfg others net prompt 0 tried lastErr s =
     (Inl (case lastErr of None \<Rightarrow> Error ''All providers failed'' | Some e \<Rightarrow> e), s)"
| "rotation_among cfg others net prompt (Suc n) tried lastErr s =
     (case getNextProvider cfg s of
        (None, s1) \<Rightarrow> rotation_among cfg others net prompt n tried lastErr s1
      | (Some p, s1) \<Rightarrow>
          if p \<in> set tried then rotation_among cfg others net prompt n tried lastErr s1
          else
            (case awaitProvider others net p prompt s1 of
               (Inr generated, s2) \<Rightarrow> (Inr generated, s2)
             | (Inl e, s2) \<Rightarrow> rotation_among cfg others net prompt n (p # tried) (Some e) s2))"

definition generateWithRotation_among ::
  "config \<Rightarrow> others \<Rightarrow> network \<Rightarrow> string \<Rightarrow> int \<Rightarrow> state \<Rightarrow> (error + string) \<times> state" where
  "generateWithRotation_among cfg others net prompt maxTries s =
     (let s0 = s\<lparr>journal := journal s @ [Generate prompt maxTries]\<rparr>
      in if length (providers cfg) = 0 then (Inl (Error ''No providers configured''), s0)
         else rotation_among cfg others net prompt
                (nat (min maxTries (int (length (providers cfg))))) [] None s0)"

section \<open>Safety gate and booking intent\<close>

text \<open>
  \<^verbatim>\<open>const EMER_WORDS = ['suicide','kill myself','hurt myself','overdose','i want to die','self harm'];
  function checkEmergency(text){ const t = String(text||'').toLowerCase();
    return EMER_WORDS.some(w => t.includes(w)); }\<close>
\<close>

definition EMER_WORDS :: "string list" where
  "EMER_WORDS =
     [''suicide'', ''kill myself'', ''hurt myself'', ''overdose'', ''i want to die'',
      ''self harm'']"

definition checkEmergency :: "string \<Rightarrow> bool" where
  "checkEmergency txt = (let t = toLowerCase txt in list_ex (\<lambda>w. includes_str t w) EMER_WORDS)"

text \<open>
  \<^verbatim>\<open>/\b(book|appointment|session|slot)\b/i.test(message)\<close>
  \<open>\b\<close> holds between two neighbours of which exactly one is a word character; the
  outside of the string is no word character. Under the flag \<open>i\<close> a letter of the
  pattern matches both of its cases. The test succeeds when the pattern matches at some
  position.
\<close>

definition BOOK_WORDS :: "string list" where
  "BOOK_WORDS = [''book'', ''appointment'', ''session'', ''slot'']"

definition word_char :: "char option \<Rightarrow> bool" where
  "word_char c = (case c of None \<Rightarrow> False | Some x \<Rightarrow> is_word x)"

definition boundary :: "char option \<Rightarrow> char option \<Rightarrow> bool" where
  "boundary a b = (word_char a \<noteq> word_char b)"

definition first_char :: "string \<Rightarrow> char option" where
  "first_char s = (case s of [] \<Rightarrow> None | c # cs \<Rightarrow> Some c)"

text \<open>
  The pattern with the alternative \<open>w\<close> matches at the position whose left neighbour is
  \<open>prev\<close> and whose remaining input is \<open>s\<close>.
\<close>

definition match_here :: "char option \<Rightarrow> string \<Rightarrow> string \<Rightarrow> bool" where
  "match_here prev s w =
     (boundary prev (first_char s) \<and> startsWith (toLowerCase s) w
      \<and> boundary (first_char (rev (take (length w) s))) (first_char (drop (length w) s)))"

fun scan :: "char option \<Rightarrow> string \<Rightarrow> bool" where
  "scan prev [] = list_ex (match_here prev []) BOOK_WORDS"
| "scan prev (c # cs) = (list_ex (match_here prev (c # cs)) BOOK_WORDS \<or> scan (Some c) cs)"

definition booking_intent :: "string \<Rightarrow> bool" where
  "booking_intent msg = scan None msg"

section \<open>The chat handler\<close>

record chat_body =
  message :: "string option"

record chat_reply =
  reply :: string
  emergency :: bool
  booking :: "string option"

text \<open>
  A response is the JSON value sent with status 200, or \<open>res.status(n).json({ error })\<close>.
  In a chat reply, \<open>emergency\<close> is the presence of the field \<open>emergency: true\<close> and
  \<open>booking\<close> the content of \<open>booking.url\<close>, if the field is there.
\<close>

datatype 'a response = Json 'a | Status nat string

definition safety :: string where
  "safety = ''I care about your safety. I cannot provide emergency services. Please call local emergency services or helplines: Vandrevala 1860-266-2345, iCall 9152987821. Would you like me to request an urgent booking?''"

definition nl :: char where
  "nl = CHR 0x0A"

definition apostrophe :: char where
  "apostrophe = CHR 0x27"

definition contextText :: "edoc list \<Rightarrow> string" where
  "contextText top3 =
     join (map (\<lambda>t. ''Document ('' @ docId t @ ''):'' @ [nl] @ docText t) top3) [nl, nl]"

definition build_prompt :: "string \<Rightarrow> string \<Rightarrow> string" where
  "build_prompt ctx msg =
     ''You are Shyam, an empathetic Indian counselling assistant. Use person-centered language, validation, and culturally sensitive examples. Do NOT provide medical prescriptions. Use context below:''
     @ [nl, nl] @ ctx @ [nl, nl] @ ''User: '' @ msg @ [nl, nl]
     @ ''Respond warmly and ask permission before techniques. Keep reply concise.''"

definition demo :: "string \<Rightarrow> edoc list \<Rightarrow> string" where
  "demo msg top3 =
     (let ids = join (map docId top3) '', ''
      in ''[DEMO] I hear you said: '' @ [apostrophe] @ msg @ [apostrophe]
         @ ''. Retrieved docs: '' @ (if ids = [] then ''none'' else ids) @ ''.'')"

text \<open>The call of \<open>retrieveTopK\<close> on the store of the process.\<close>

definition retrieveTopK_call :: "string \<Rightarrow> int \<Rightarrow> state \<Rightarrow> edoc list \<times> state" where
  "retrieveTopK_call query k s =
     (retrieveTopK (vectorStore s) query k, s\<lparr>journal := journal s @ [Retrieve query k]\<rparr>)"

text \<open>
  \<^verbatim>\<open>app.post('/api/chat', async (req,res)=>{
    try{
      const message = req.body && req.body.message ? String(req.body.message) : '';
      if(!message) return res.status(400).json({ error: 'Provide message' });
      if(checkEmergency(message)){ ... return res.json({ reply: safety, emergency: true }); }
      const top = retrieveTopK(message, 3);
      const contextText = ...; const prompt = ...;
      if(providers.length>0){
        try{
          const reply = await generateWithRotation(prompt, 3);
          const result = { reply: String(reply).trim() };
          if(/\b(book|appointment|session|slot)\b/i.test(message)) result.booking = { url: BOOKING_LINK || '' };
          return res.json(result);
        }catch(e){ console.error('generation error', e); }
      }
      const demo = ...;
      return res.json({ reply: demo });
    }catch(e){ ... return res.status(500).json({ error: 'Server error' }); }
  });\<close>
  The request body is absent or an object whose \<open>message\<close> is absent or a string. No
  step outside the inner \<open>try\<close> throws, so the outer \<open>catch\<close> has no path here. The
  handler is given with \<open>generateWithRotation\<close>, the run during whose provider calls no
  other request advances \<open>providerIndex\<close>.
\<close>

definition message_of :: "chat_body option \<Rightarrow> string" where
  "message_of body =
     (case body of None \<Rightarrow> [] | Some b \<Rightarrow> (case message b of None \<Rightarrow> [] | Some m \<Rightarrow> m))"

definition post_chat ::
  "config \<Rightarrow> network \<Rightarrow> chat_body option \<Rightarrow> state \<Rightarrow> chat_reply response \<times> state" where
  "post_chat cfg net body s =
     (let msg = message_of body
      in if msg = [] then (Status 400 ''Provide message'', s)
         else if checkEmergency msg
         then (Json \<lparr>reply = safety, emergency = True, booking = None\<rparr>, s)
         else
           (case retrieveTopK_call msg 3 s of
              (top3, s1) \<Rightarrow>
                let prompt = build_prompt (contextText top3) msg;
                    fallback = (\<lambda>s'. (Json \<lparr>reply = demo msg top3, emergency = False, booking = None\<rparr>, s'))
                in if length (providers cfg) > 0
                   then
                     (case generateWithRotation cfg net prompt 3 s1 of
                        (Inr generated, s2) \<Rightarrow>
                          (Json \<lparr>reply = trim generated, emergency = False,
                                 booking = (if booking_intent msg then Some (BOOKING_LINK cfg) else None)\<rparr>,
                           s2)
                      | (Inl e, s2) \<Rightarrow> fallback s2)
                   else fallback s1))"

section \<open>The index handler\<close>

text \<open>
  The install directory \<open>__dirname\<close> is the list of its entries: files with their text
  and folders with their own entries. \<open>path.join(__dirname, name)\<close> is the entry \<open>name\<close>
  of the install directory.
\<close>

datatype node = File string | Dir "(string \<times> node) list"

type_synonym filesystem = "(string \<times> node) list"

definition existsSync :: "filesystem \<Rightarrow> string \<Rightarrow> bool" where
  "existsSync dir name = (map_of dir name \<noteq> None)"

definition readdirSync :: "filesystem \<Rightarrow> string \<Rightarrow> error + string list" where
  "readdirSync dir name =
     (case map_of dir name of
        None \<Rightarrow> Inl (Error ''ENOENT'')
      | Some (File t) \<Rightarrow> Inl (Error ''ENOTDIR'')
      | Some (Dir es) \<Rightarrow> Inr (map fst es))"

definition readFileSync :: "filesystem \<Rightarrow> string \<Rightarrow> error + string" where
  "readFileSync dir name =
     (case map_of dir name of
        None \<Rightarrow> Inl (Error ''ENOENT'')
      | Some (File t) \<Rightarrow> Inr t
      | Some (Dir es) \<Rightarrow> Inl (Error ''EISDIR''))"

text \<open>
  \<^verbatim>\<open>let files = [];
  if(fs.existsSync(folder)) files = fs.readdirSync(folder).filter(f => f.endsWith('.txt')||f.endsWith('.md'));
  if(files.length===0){ const myfile = path.join(__dirname,'my_data.txt');
    if(fs.existsSync(myfile)) files = ['my_data.txt']; }\<close>
\<close>

definition discover :: "filesystem \<Rightarrow> error + string list" where
  "discover dir =
     (case (if existsSync dir ''knowledge''
            then (case readdirSync dir ''knowledge'' of
                    Inl e \<Rightarrow> Inl e
                  | Inr names \<Rightarrow> Inr (filter (\<lambda>f. endsWith f ''.txt'' \<or> endsWith f ''.md'') names))
            else Inr []) of
        Inl e \<Rightarrow> Inl e
      | Inr files \<Rightarrow>
          Inr (if length files = 0
               then (if existsSync dir ''my_data.txt'' then [''my_data.txt''] else files)
               else files))"

text \<open>
  \<^verbatim>\<open>const docs = files.map(fn => ({ id: fn, text: fs.readFileSync(path.join(__dirname,fn), 'utf-8') }));\<close>
  The first read that fails throws.
\<close>

fun read_docs :: "filesystem \<Rightarrow> string list \<Rightarrow> error + doc list" where
  "read_docs dir [] = Inr []"
| "read_docs dir (fn # fns) =
     (case readFileSync dir fn of
        Inl e \<Rightarrow> Inl e
      | Inr t \<Rightarrow>
          (case read_docs dir fns of
             Inl e \<Rightarrow> Inl e
           | Inr ds \<Rightarrow> Inr (\<lparr>docId = fn, docText = t\<rparr> # ds)))"

record index_reply =
  ok :: bool
  indexed :: nat

text \<open>
  \<^verbatim>\<open>app.post('/api/index', async (req,res)=>{
    try{
      ...
      if(files.length===0) return res.status(400).json({ error: 'No knowledge files found. ...' });
      const docs = ...;
      const vocab = buildVocab(docs, 400);
      vectorStore.vocab = vocab;
      vectorStore.docs = docs.map(d=> ({ id:d.id, text:d.text, embedding: tfvec(d.text, vocab) }) );
      return res.json({ ok:true, indexed: vectorStore.docs.length });
    }catch(e){ ... return res.status(500).json({ error: 'index failed' }); }
  });\<close>
\<close>

definition post_index :: "engine \<Rightarrow> filesystem \<Rightarrow> state \<Rightarrow> index_reply response \<times> state" where
  "post_index engine dir s =
     (case discover dir of
        Inl e \<Rightarrow> (Status 500 ''index failed'', s)
      | Inr files \<Rightarrow>
          if length files = 0
          then (Status 400 ''No knowledge files found. Add .txt/.md to ./knowledge or place my_data.txt'', s)
          else
            (case read_docs dir files of
               Inl e \<Rightarrow> (Status 500 ''index failed'', s)
             | Inr ds \<Rightarrow>
                 let v = buildVocab engine ds 400;
                     s1 = s\<lparr>vectorStore := (vectorStore s)\<lparr>vocab := v\<rparr>\<rparr>;
                     s2 = s1\<lparr>vectorStore := (vectorStore s1)
                            \<lparr>docs := map (\<lambda>d. \<lparr>docId = docId d, docText = docText d,
                                                 embedding = tfvec (docText d) v\<rparr>) ds\<rparr>\<rparr>
                 in (Json \<lparr>ok = True, indexed = length (docs (vectorStore s2))\<rparr>, s2)))"

section \<open>Notions the properties are stated with\<close>

text \<open>The providers called in a stretch of the journal, and the errors they gave.\<close>

fun calls_of :: "event list \<Rightarrow> provider list" where
  "calls_of [] = []"
| "calls_of (Call p q r # es) = p # calls_of es"
| "calls_of (e # es) = calls_of es"

fun errors_of :: "event list \<Rightarrow> error list" where
  "errors_of [] = []"
| "errors_of (Call p q (Inl e) # es) = e # errors_of es"
| "errors_of (e # es) = errors_of es"

text \<open>
  What \<open>throw lastErr || new Error('All providers failed')\<close> throws, given the value of
  \<open>lastErr\<close> when the loop is entered and the errors recorded in the loop.
\<close>

definition final_error :: "error option \<Rightarrow> error list \<Rightarrow> error" where
  "final_error le es =
     (if es = [] then (case le of None \<Rightarrow> Error ''All providers failed'' | Some e \<Rightarrow> e)
      else last es)"

text \<open>What an operation appended to the journal.\<close>

definition appended :: "state \<Rightarrow> state \<Rightarrow> event list" where
  "appended s s' = drop (length (journal s)) (journal s')"

text \<open>A provider answered during an operation: the last new entry is a call that succeeded.\<close>

definition answered :: "state \<Rightarrow> state \<Rightarrow> bool" where
  "answered s s' =
     (case rev (appended s s') of Call p q (Inr g) # es \<Rightarrow> True | _ \<Rightarrow> False)"

text \<open>The size of the vocabulary and of the stored embeddings.\<close>

definition store_ok :: "store \<Rightarrow> bool" where
  "store_ok vs =
     (length (vocab vs) \<le> 400
      \<and> list_all (\<lambda>d. length (embedding d) = length (vocab vs)) (docs vs))"

text \<open>The states of the process: the handlers run from the initial state in any order.\<close>

inductive reachable :: "config \<Rightarrow> state \<Rightarrow> bool" for cfg :: config where
  start: "reachable cfg initial_state"
| indexed: "reachable cfg s \<Longrightarrow> reachable cfg (snd (post_index engine dir s))"
| chatted: "reachable cfg s \<Longrightarrow> reachable cfg (snd (post_chat cfg net body s))"

text \<open>
  All tokens of a document set in the order of the tabulation pass, the distinct ones in
  the order of their first occurrence, and the total frequency of a term.
\<close>

definition all_tokens :: "'a doc_scheme list \<Rightarrow> string list" where
  "all_tokens ds = concat (map (\<lambda>d. toks (docText d)) ds)"

definition first_seen :: "string list \<Rightarrow> string list" where
  "first_seen ts = rev (remdups (rev ts))"

definition frequency :: "'a doc_scheme list \<Rightarrow> string \<Rightarrow> nat" where
  "frequency ds t = count_list (all_tokens ds) t"

text \<open>
  A table that tabulates the tokens \<open>ts\<close>: its keys are the distinct tokens in first-seen
  order and every token holds the number of its occurrences.
\<close>

definition tabulates :: "table \<Rightarrow> string list \<Rightarrow> bool" where
  "tabulates f ts \<longleftrightarrow>
     map fst f = first_seen ts \<and> (\<forall>k\<in>set ts. map_of f k = Some (Count (count_list ts k)))"

text \<open>
  The vocabulary as the specification words it: the distinct terms by descending
  frequency, equal frequencies in first-seen order, cut at \<open>maxV\<close>.
\<close>

definition vocab_first_seen :: "'a doc_scheme list \<Rightarrow> int \<Rightarrow> string list" where
  "vocab_first_seen ds maxV =
     take (nat maxV) (sort_key (\<lambda>t. - int (frequency ds t)) (first_seen (all_tokens ds)))"

text \<open>
  The same with equal frequencies in the key order of an object: the terms that are
  array indices by ascending value, then the other terms in first-seen order.
\<close>

definition key_order :: "string list \<Rightarrow> string list" where
  "key_order ts =
     sort_key index_value (filter is_array_index (first_seen ts))
     @ filter (\<lambda>t. \<not> is_array_index t) (first_seen ts)"

definition vocab_key_order :: "'a doc_scheme list \<Rightarrow> int \<Rightarrow> string list" where
  "vocab_key_order ds maxV =
     take (nat maxV) (sort_key (\<lambda>t. - int (frequency ds t)) (key_order (all_tokens ds)))"

text \<open>The similarity of a stored document to a query, as \<open>retrieveTopK\<close> scores it.\<close>

definition score :: "store \<Rightarrow> string \<Rightarrow> edoc \<Rightarrow> real" where
  "score vs query d = cosine (tfvec query (vocab vs)) (embedding d)"

section \<open>Example inputs\<close>

definition cfg_none :: config where
  "cfg_none = \<lparr>GOOGLE_API_KEY = [], OPENAI_API_KEY = [], HUGGINGFACE_API_KEY = [], BOOKING_LINK = []\<rparr>"

definition cfg_all :: config where
  "cfg_all = \<lparr>GOOGLE_API_KEY = ''g-key'', OPENAI_API_KEY = ''o-key'',
               HUGGINGFACE_API_KEY = ''h-key'', BOOKING_LINK = ''https://example.org/book''\<rparr>"

definition net_down :: network where
  "net_down = (\<lambda>h p q. Inl (Error ''unavailable''))"

definition net_up :: network where
  "net_up = (\<lambda>h p q. Inr ''hello'')"

text \<open>No other request, and two other requests that take a provider during every call.\<close>

definition alone :: others where
  "alone = (\<lambda>h. 0)"

definition two_others :: others where
  "two_others = (\<lambda>h. 2)"

definition engine_id :: engine where
  "engine_id = (\<lambda>f ks. ks)"

definition fs_root_only :: filesystem where
  "fs_root_only = [(''my_data.txt'', File ''Breathe in. Breathe out. 7 times.'')]"

definition fs_knowledge :: filesystem where
  "fs_knowledge =
     [(''knowledge'', Dir [(''calm.txt'', File ''inside the folder''), (''notes.pdf'', File ''x'')]),
      (''calm.txt'', File ''Rest, then rest again.'')]"

definition fs_knowledge_only :: filesystem where
  "fs_knowledge_only = [(''knowledge'', Dir [(''calm.txt'', File ''inside the folder'')])]"

definition fs_empty_folder :: filesystem where
  "fs_empty_folder = [(''knowledge'', Dir [(''notes.pdf'', File ''x'')])]"

definition book_msg :: string where
  "book_msg = ''I'' @ [apostrophe] @ ''d like to book a session''"

definition fs_two :: filesystem where
  "fs_two =
     [(''knowledge'', Dir [(''rest.txt'', File []), (''calm.txt'', File [])]),
      (''rest.txt'', File ''rest''), (''calm.txt'', File ''calm'')]"

definition doc_rest :: edoc where
  "doc_rest = \<lparr>docId = ''rest.txt'', docText = ''rest'', embedding = [1, 0]\<rparr>"

definition doc_calm :: edoc where
  "doc_calm = \<lparr>docId = ''calm.txt'', docText = ''calm'', embedding = [0, 1]\<rparr>"

definition store_two :: store where
  "store_two = \<lparr>docs = [doc_rest, doc_calm], vocab = [''rest'', ''calm'']\<rparr>"

definition doc_call :: doc where
  "doc_call = \<lparr>docId = ''help.txt'', docText = ''Call 112''\<rparr>"

definition doc_calls :: doc where
  "doc_calls = \<lparr>docId = ''help.txt'', docText = ''Call 112, call a friend.''\<rparr>"

section \<open>Properties\<close>

subsection \<open>Strings\<close>

lemma startsWith_iff: "startsWith s w \<longleftrightarrow> (\<exists>post. s = w @ post)"
  by (induction s w rule: startsWith.induct) auto

lemma includes_str_iff: "includes_str t w \<longleftrightarrow> (\<exists>pre post. t = pre @ w @ post)"
proof (induction t)
  case Nil
  then show ?case by simp
next
  case (Cons c cs)
  show ?case
  proof
    assume "includes_str (c # cs) w"
    then consider "startsWith (c # cs) w" | "includes_str cs w" by auto
    then show "\<exists>pre post. c # cs = pre @ w @ post"
    proof cases
      case 1
      then obtain post where "c # cs = w @ post" using startsWith_iff by blast
      then have "c # cs = [] @ w @ post" by simp
      then show ?thesis by blast
    next
      case 2
      then obtain pre post where "cs = pre @ w @ post" using Cons.IH by blast
      then have "c # cs = (c # pre) @ w @ post" by simp
      then show ?thesis by blast
    qed
  next
    assume "\<exists>pre post. c # cs = pre @ w @ post"
    then obtain pre post where eq: "c # cs = pre @ w @ post" by blast
    show "includes_str (c # cs) w"
    proof (cases pre)
      case Nil
      with eq have "startsWith (c # cs) w" using startsWith_iff by auto
      then show ?thesis by simp
    next
      case (Cons p pre')
      with eq have "cs = pre' @ w @ post" by simp
      then have "includes_str cs w" using Cons.IH by blast
      then show ?thesis by simp
    qed
  qed
qed

subsection \<open>The safety gate\<close>

text \<open>
  \<open>checkEmergency\<close> holds exactly when some stretch of the message is an emergency
  phrase up to the case of its letters.
\<close>

lemma checkEmergency_iff:
  "checkEmergency m \<longleftrightarrow>
     (\<exists>w\<in>set EMER_WORDS. \<exists>pre u post. m = pre @ u @ post \<and> toLowerCase u = w)"
proof -
  have "(\<exists>pre post. toLowerCase m = pre @ w @ post)
        \<longleftrightarrow> (\<exists>pre u post. m = pre @ u @ post \<and> toLowerCase u = w)" for w
  proof
    assume "\<exists>pre post. toLowerCase m = pre @ w @ post"
    then obtain pre post where "map lower_char m = pre @ w @ post"
      by (auto simp: toLowerCase_def)
    then obtain a b c where "m = a @ b @ c" "map lower_char b = w"
      by (metis map_eq_append_conv)
    then show "\<exists>pre u post. m = pre @ u @ post \<and> toLowerCase u = w"
      by (auto simp: toLowerCase_def)
  next
    assume "\<exists>pre u post. m = pre @ u @ post \<and> toLowerCase u = w"
    then obtain pre u post where "m = pre @ u @ post" "toLowerCase u = w" by blast
    then have "toLowerCase m = toLowerCase pre @ w @ toLowerCase post"
      by (simp add: toLowerCase_def)
    then show "\<exists>pre post. toLowerCase m = pre @ w @ post" by blast
  qed
  then show ?thesis
    by (simp add: checkEmergency_def list_ex_iff includes_str_iff)
qed

lemma EMER_WORDS_lower: "w \<in> set EMER_WORDS \<Longrightarrow> toLowerCase w = w"
  unfolding EMER_WORDS_def by (auto; code_simp)

text \<open>
  Claim C1. When a stretch \<open>u\<close> of the message \<open>m\<close> is one of the emergency phrases up to
  the case of its letters, the chat handler answers with the fixed safety reply and
  \<open>emergency: true\<close>, and the state of the process is the one before the request: the
  journal has no new entry, so neither \<open>retrieveTopK\<close> nor \<open>generateWithRotation\<close> nor
  any provider was called.
\<close>

theorem emergency_short_circuit:
  assumes "w \<in> set EMER_WORDS" and "m = pre @ u @ post" and "toLowerCase u = toLowerCase w"
  shows "post_chat cfg net (Some \<lparr>message = Some m\<rparr>) s
         = (Json \<lparr>reply = safety, emergency = True, booking = None\<rparr>, s)"
proof -
  have "toLowerCase w = w"
    using assms(1) by (rule EMER_WORDS_lower)
  with assms have em: "checkEmergency m"
    unfolding checkEmergency_iff by metis
  have "w \<noteq> []" using assms(1) unfolding EMER_WORDS_def by auto
  with assms(3) have "u \<noteq> []" by (auto simp: toLowerCase_def)
  with assms(2) have "m \<noteq> []" by simp
  with em show ?thesis by (simp add: post_chat_def message_of_def)
qed

theorem emergency_short_circuit_witness:
  "''i want to die'' \<in> set EMER_WORDS
   \<and> toLowerCase ''I want to DIE'' = toLowerCase ''i want to die''
   \<and> post_chat cfg_all net_up (Some \<lparr>message = Some ''Today I want to DIE.''\<rparr>) initial_state
       = (Json \<lparr>reply = safety, emergency = True, booking = None\<rparr>, initial_state)"
proof -
  have a: "''i want to die'' \<in> set EMER_WORDS" by (simp add: EMER_WORDS_def)
  have b: "''Today I want to DIE.'' = ''Today '' @ ''I want to DIE'' @ ''.''" by simp
  have c: "toLowerCase ''I want to DIE'' = toLowerCase ''i want to die''" by code_simp
  show ?thesis using emergency_short_circuit [OF a b c] a c by simp
qed

subsection \<open>Provider rotation\<close>

lemma getNextProvider_some:
  "providers cfg \<noteq> [] \<Longrightarrow>
   getNextProvider cfg s =
     (Some (providers cfg ! (providerIndex s mod length (providers cfg))),
      s\<lparr>providerIndex := providerIndex s + 1\<rparr>)"
  by (simp add: getNextProvider_def)

lemma getNextProvider_none: "providers cfg = [] \<Longrightarrow> getNextProvider cfg s = (None, s)"
  by (simp add: getNextProvider_def)

lemma rotation_effect:
  "\<exists>k new. k \<le> n \<and>
     snd (rotation cfg net q n tried le s)
       = s\<lparr>providerIndex := providerIndex s + k, journal := journal s @ new\<rparr>
     \<and> (\<forall>ev\<in>set new. \<exists>p r. ev = Call p q r)"
proof (induction n arbitrary: tried le s)
  case 0
  have "s = s\<lparr>providerIndex := providerIndex s + 0, journal := journal s @ []\<rparr>" by simp
  then show ?case by (metis empty_iff empty_set le0 rotation.simps(1) snd_conv)
next
  case (Suc n)
  show ?case
  proof (cases "providers cfg = []")
    case True
    then show ?thesis using Suc.IH [of tried le s]
      by (auto simp: getNextProvider_none) (metis le_SucI)
  next
    case False
    define p where "p = providers cfg ! (providerIndex s mod length (providers cfg))"
    define s1 where "s1 = s\<lparr>providerIndex := providerIndex s + 1\<rparr>"
    have g: "getNextProvider cfg s = (Some p, s1)"
      using False by (simp add: getNextProvider_some p_def s1_def)
    show ?thesis
    proof (cases "p \<in> set tried")
      case True
      from Suc.IH [of tried le s1] obtain k new where
        "k \<le> n" "snd (rotation cfg net q n tried le s1)
           = s1\<lparr>providerIndex := providerIndex s1 + k, journal := journal s1 @ new\<rparr>"
        "\<forall>ev\<in>set new. \<exists>p r. ev = Call p q r" by blast
      then have "Suc k \<le> Suc n \<and> snd (rotation cfg net q (Suc n) tried le s)
           = s\<lparr>providerIndex := providerIndex s + Suc k, journal := journal s @ new\<rparr>
           \<and> (\<forall>ev\<in>set new. \<exists>p r. ev = Call p q r)"
        using g True by (simp add: s1_def)
      then show ?thesis by blast
    next
      case nt: False
      define r where "r = net (journal s1) p q"
      define s2 where "s2 = s1\<lparr>journal := journal s1 @ [Call p q r]\<rparr>"
      have c: "callProvider net p q s1 = (r, s2)"
        by (simp add: callProvider_def r_def s2_def Let_def)
      show ?thesis
      proof (cases r)
        case (Inr generated)
        have "Suc 0 \<le> Suc n \<and> snd (rotation cfg net q (Suc n) tried le s)
           = s\<lparr>providerIndex := providerIndex s + Suc 0, journal := journal s @ [Call p q r]\<rparr>
           \<and> (\<forall>ev\<in>set [Call p q r]. \<exists>p r. ev = Call p q r)"
          using g nt c Inr by (simp add: s1_def s2_def)
        then show ?thesis by blast
      next
        case (Inl e)
        from Suc.IH [of "p # tried" "Some e" s2] obtain k new where
          "k \<le> n" "snd (rotation cfg net q n (p # tried) (Some e) s2)
             = s2\<lparr>providerIndex := providerIndex s2 + k, journal := journal s2 @ new\<rparr>"
          "\<forall>ev\<in>set new. \<exists>p r. ev = Call p q r" by blast
        then have "Suc k \<le> Suc n \<and> snd (rotation cfg net q (Suc n) tried le s)
           = s\<lparr>providerIndex := providerIndex s + Suc k, journal := journal s @ (Call p q r # new)\<rparr>
           \<and> (\<forall>ev\<in>set (Call p q r # new). \<exists>p r. ev = Call p q r)"
          using g nt c Inl by (simp add: s1_def s2_def)
        then show ?thesis by blast
      qed
    qed
  qed
qed

lemma rotation_success:
  assumes "rotation cfg net q n tried le s = (Inr g, s')"
  shows "\<exists>old. journal s' = old @ [Call (providers cfg ! ((providerIndex s' - 1) mod length (providers cfg))) q (Inr g)]
         \<and> length (journal s) \<le> length old \<and> providerIndex s < providerIndex s'"
  using assms
proof (induction n arbitrary: tried le s)
  case 0
  then show ?case by simp
next
  case (Suc n)
  show ?case
  proof (cases "providers cfg = []")
    case True
    then show ?thesis using Suc.IH [of tried le s] Suc.prems
      by (simp add: getNextProvider_none)
  next
    case False
    define p where "p = providers cfg ! (providerIndex s mod length (providers cfg))"
    define s1 where "s1 = s\<lparr>providerIndex := providerIndex s + 1\<rparr>"
    have g: "getNextProvider cfg s = (Some p, s1)"
      using False by (simp add: getNextProvider_some p_def s1_def)
    show ?thesis
    proof (cases "p \<in> set tried")
      case True
      then have "rotation cfg net q n tried le s1 = (Inr g, s')"
        using Suc.prems g by simp
      from Suc.IH [OF this] show ?thesis by (auto simp: s1_def)
    next
      case nt: False
      define r where "r = net (journal s1) p q"
      define s2 where "s2 = s1\<lparr>journal := journal s1 @ [Call p q r]\<rparr>"
      have c: "callProvider net p q s1 = (r, s2)"
        by (simp add: callProvider_def r_def s2_def Let_def)
      show ?thesis
      proof (cases r)
        case (Inr generated)
        then have "generated = g" "s' = s2" using Suc.prems g nt c by simp_all
        then show ?thesis using Inr by (simp add: s2_def s1_def p_def)
      next
        case (Inl e)
        then have "rotation cfg net q n (p # tried) (Some e) s2 = (Inr g, s')"
          using Suc.prems g nt c by simp
        from Suc.IH [OF this] show ?thesis by (auto simp: s1_def s2_def)
      qed
    qed
  qed
qed

lemma distinct_providers: "distinct (providers cfg)"
  by (simp add: providers_def Let_def)

lemma window_inj:
  assumes "distinct ps" and "n \<le> length ps"
  shows "inj_on (\<lambda>j. ps ! (j mod length ps)) {i..<i + n}"
proof (rule inj_onI)
  fix j k
  assume j: "j \<in> {i..<i + n}" and k: "k \<in> {i..<i + n}"
    and eq: "ps ! (j mod length ps) = ps ! (k mod length ps)"
  from j assms(2) have pos: "0 < length ps" by auto
  then have "j mod length ps < length ps" "k mod length ps < length ps" by simp_all
  with eq assms(1) have m: "j mod length ps = k mod length ps"
    by (simp add: nth_eq_iff_index_eq)
  have close: "j - k < length ps" "k - j < length ps" using j k assms(2) by auto
  show "j = k"
  proof (cases "j \<le> k")
    case True
    with m have "length ps dvd (k - j)" by (metis mod_eq_dvd_iff_nat)
    with close have "k - j = 0" using nat_dvd_not_less by blast
    with True show ?thesis by simp
  next
    case False
    then have "k \<le> j" by simp
    with m have "length ps dvd (j - k)" by (metis mod_eq_dvd_iff_nat)
    with close have "j - k = 0" using nat_dvd_not_less by blast
    with \<open>k \<le> j\<close> show ?thesis by simp
  qed
qed

lemma final_error_Cons: "final_error le (e # es) = final_error (Some e) es"
  by (simp add: final_error_def)

lemma rotation_all_fail:
  assumes "providers cfg \<noteq> []"
    and "\<forall>h p. p \<in> set (providers cfg) \<longrightarrow> isl (net h p q)"
    and "inj_on (\<lambda>j. providers cfg ! (j mod length (providers cfg))) {providerIndex s..<providerIndex s + n}"
    and "\<forall>j\<in>{providerIndex s..<providerIndex s + n}. providers cfg ! (j mod length (providers cfg)) \<notin> set tried"
  shows "\<exists>new. rotation cfg net q n tried le s
           = (Inl (final_error le (errors_of new)),
              s\<lparr>providerIndex := providerIndex s + n, journal := journal s @ new\<rparr>)
         \<and> calls_of new = map (\<lambda>j. providers cfg ! (j mod length (providers cfg))) [providerIndex s..<providerIndex s + n]
         \<and> length (errors_of new) = n"
  using assms(3,4)
proof (induction n arbitrary: tried le s)
  case 0
  have "rotation cfg net q 0 tried le s
           = (Inl (final_error le (errors_of [])),
              s\<lparr>providerIndex := providerIndex s + 0, journal := journal s @ []\<rparr>)
         \<and> calls_of [] = map (\<lambda>j. providers cfg ! (j mod length (providers cfg))) [providerIndex s..<providerIndex s + 0]
         \<and> length (errors_of []) = 0" by (simp add: final_error_def)
  then show ?case by blast
next
  case (Suc n)
  let ?g = "\<lambda>j. providers cfg ! (j mod length (providers cfg))"
  let ?i = "providerIndex s"
  define p where "p = ?g ?i"
  define s1 where "s1 = s\<lparr>providerIndex := ?i + 1\<rparr>"
  have g: "getNextProvider cfg s = (Some p, s1)"
    using assms(1) by (simp add: getNextProvider_some p_def s1_def)
  have nt: "p \<notin> set tried" using Suc.prems(2) by (simp add: p_def)
  have mem: "p \<in> set (providers cfg)" using assms(1) by (simp add: p_def)
  define r where "r = net (journal s1) p q"
  define s2 where "s2 = s1\<lparr>journal := journal s1 @ [Call p q r]\<rparr>"
  have c: "callProvider net p q s1 = (r, s2)"
    by (simp add: callProvider_def r_def s2_def Let_def)
  from assms(2) mem have "isl r" by (simp add: r_def)
  then obtain e where e: "r = Inl e" by (cases r) auto
  have step: "rotation cfg net q (Suc n) tried le s = rotation cfg net q n (p # tried) (Some e) s2"
    using g nt c e by simp
  have idx2: "providerIndex s2 = Suc ?i" by (simp add: s2_def s1_def)
  have sub: "{Suc ?i..<Suc ?i + n} \<subseteq> {?i..<?i + Suc n}" by auto
  have inj2: "inj_on ?g {providerIndex s2..<providerIndex s2 + n}"
    unfolding idx2 using Suc.prems(1) sub by (rule inj_on_subset)
  have fresh2: "\<forall>j\<in>{providerIndex s2..<providerIndex s2 + n}. ?g j \<notin> set (p # tried)"
  proof
    fix j assume j: "j \<in> {providerIndex s2..<providerIndex s2 + n}"
    then have jin: "j \<in> {?i..<?i + Suc n}" and "j \<noteq> ?i" using idx2 by auto
    moreover have "?i \<in> {?i..<?i + Suc n}" by simp
    ultimately have "?g j \<noteq> ?g ?i" using Suc.prems(1) by (meson inj_onD)
    moreover have "?g j \<notin> set tried" using Suc.prems(2) jin by blast
    ultimately show "?g j \<notin> set (p # tried)" by (simp add: p_def)
  qed
  from Suc.IH [OF inj2 fresh2, of "Some e"] obtain new where
    new: "rotation cfg net q n (p # tried) (Some e) s2
           = (Inl (final_error (Some e) (errors_of new)),
              s2\<lparr>providerIndex := providerIndex s2 + n, journal := journal s2 @ new\<rparr>)"
      "calls_of new = map ?g [providerIndex s2..<providerIndex s2 + n]"
      "length (errors_of new) = n" by blast
  let ?new = "Call p q (Inl e) # new"
  have "rotation cfg net q (Suc n) tried le s
           = (Inl (final_error le (errors_of ?new)),
              s\<lparr>providerIndex := ?i + Suc n, journal := journal s @ ?new\<rparr>)"
    using step new(1) e by (simp add: s2_def s1_def final_error_Cons)
  moreover have "[?i..<?i + Suc n] = ?i # [Suc ?i..<Suc ?i + n]"
    by (subst upt_rec) simp
  then have "calls_of ?new = map ?g [?i..<?i + Suc n]"
    using new(2) idx2 by (simp add: p_def)
  moreover have "length (errors_of ?new) = Suc n" using new(3) by simp
  ultimately show ?case by blast
qed

lemma generate_all_fail:
  assumes "\<forall>h p. p \<in> set (providers cfg) \<longrightarrow> isl (net h p prompt)"
  shows "\<exists>e s'. generateWithRotation cfg net prompt maxTries s = (Inl e, s')
     \<and> length (calls_of (appended s s')) = nat (min maxTries (int (length (providers cfg))))
     \<and> distinct (calls_of (appended s s'))
     \<and> set (calls_of (appended s s')) \<subseteq> set (providers cfg)
     \<and> length (errors_of (appended s s')) = length (calls_of (appended s s'))
     \<and> e = (if providers cfg = [] then Error ''No providers configured''
            else if errors_of (appended s s') = [] then Error ''All providers failed''
            else last (errors_of (appended s s')))"
proof (cases "providers cfg = []")
  case True
  then show ?thesis by (simp add: generateWithRotation_def appended_def)
next
  case False
  let ?g = "\<lambda>j. providers cfg ! (j mod length (providers cfg))"
  define n where "n = nat (min maxTries (int (length (providers cfg))))"
  define s0 where "s0 = s\<lparr>journal := journal s @ [Generate prompt maxTries]\<rparr>"
  have le: "n \<le> length (providers cfg)" by (simp add: n_def)
  have inj: "inj_on ?g {providerIndex s0..<providerIndex s0 + n}"
    using distinct_providers le by (rule window_inj)
  have fresh: "\<forall>j\<in>{providerIndex s0..<providerIndex s0 + n}. ?g j \<notin> set []" by simp
  from rotation_all_fail [of cfg net prompt s0 n "[]" None, OF False assms inj fresh]
  obtain new where
    new: "rotation cfg net prompt n [] None s0
           = (Inl (final_error None (errors_of new)),
              s0\<lparr>providerIndex := providerIndex s0 + n, journal := journal s0 @ new\<rparr>)"
      "calls_of new = map ?g [providerIndex s0..<providerIndex s0 + n]"
      "length (errors_of new) = n" by blast
  define s' where "s' = s0\<lparr>providerIndex := providerIndex s0 + n, journal := journal s0 @ new\<rparr>"
  have app: "appended s s' = Generate prompt maxTries # new"
    by (simp add: appended_def s'_def s0_def)
  have gen: "generateWithRotation cfg net prompt maxTries s
        = (Inl (final_error None (errors_of new)), s')"
    using False new(1) by (simp add: generateWithRotation_def Let_def n_def s0_def s'_def)
  have d: "distinct (calls_of new)"
    unfolding new(2) using inj by (simp add: distinct_map)
  have sub: "set (calls_of new) \<subseteq> set (providers cfg)"
    unfolding new(2) using False by auto
  have fe: "final_error None (errors_of new)
      = (if errors_of new = [] then Error ''All providers failed'' else last (errors_of new))"
    by (simp add: final_error_def)
  have "generateWithRotation cfg net prompt maxTries s
          = (Inl (final_error None (errors_of new)), s')
     \<and> length (calls_of (appended s s')) = nat (min maxTries (int (length (providers cfg))))
     \<and> distinct (calls_of (appended s s'))
     \<and> set (calls_of (appended s s')) \<subseteq> set (providers cfg)
     \<and> length (errors_of (appended s s')) = length (calls_of (appended s s'))
     \<and> final_error None (errors_of new)
         = (if providers cfg = [] then Error ''No providers configured''
            else if errors_of (appended s s') = [] then Error ''All providers failed''
            else last (errors_of (appended s s')))"
    unfolding app using gen new(2,3) d sub False fe by (simp add: n_def)
  then show ?thesis by blast
qed

lemma rotation_first_call:
  assumes "providers cfg \<noteq> []"
  shows "\<exists>r rest. journal (snd (rotation cfg net q (Suc n) [] le s))
           = journal s @ Call (providers cfg ! (providerIndex s mod length (providers cfg))) q r # rest"
proof -
  define p where "p = providers cfg ! (providerIndex s mod length (providers cfg))"
  define s1 where "s1 = s\<lparr>providerIndex := providerIndex s + 1\<rparr>"
  have g: "getNextProvider cfg s = (Some p, s1)"
    using assms by (simp add: getNextProvider_some p_def s1_def)
  define r where "r = net (journal s1) p q"
  define s2 where "s2 = s1\<lparr>journal := journal s1 @ [Call p q r]\<rparr>"
  have c: "callProvider net p q s1 = (r, s2)"
    by (simp add: callProvider_def r_def s2_def Let_def)
  show ?thesis
  proof (cases r)
    case (Inr generated)
    then have "journal (snd (rotation cfg net q (Suc n) [] le s)) = journal s @ Call p q r # []"
      using g c by (simp add: s2_def s1_def)
    then show ?thesis unfolding p_def by blast
  next
    case (Inl e)
    from rotation_effect [of n cfg net q "[p]" "Some e" s2] obtain k new where
      "snd (rotation cfg net q n [p] (Some e) s2)
        = s2\<lparr>providerIndex := providerIndex s2 + k, journal := journal s2 @ new\<rparr>" by blast
    then have "journal (snd (rotation cfg net q (Suc n) [] le s)) = journal s @ Call p q r # new"
      using g c Inl by (simp add: s2_def s1_def)
    then show ?thesis unfolding p_def by blast
  qed
qed

lemma rotation_failure:
  assumes "rotation cfg net q n tried le s = (Inl e, s')"
    and "journal s \<noteq> [] \<and> (\<forall>p q' g. last (journal s) \<noteq> Call p q' (Inr g))"
  shows "journal s' \<noteq> [] \<and> (\<forall>p q' g. last (journal s') \<noteq> Call p q' (Inr g))"
  using assms
proof (induction n arbitrary: tried le s)
  case 0
  then show ?case by simp
next
  case (Suc n)
  show ?case
  proof (cases "providers cfg = []")
    case True
    then show ?thesis using Suc.IH [of tried le s] Suc.prems
      by (simp add: getNextProvider_none)
  next
    case False
    define p where "p = providers cfg ! (providerIndex s mod length (providers cfg))"
    define s1 where "s1 = s\<lparr>providerIndex := providerIndex s + 1\<rparr>"
    have g: "getNextProvider cfg s = (Some p, s1)"
      using False by (simp add: getNextProvider_some p_def s1_def)
    show ?thesis
    proof (cases "p \<in> set tried")
      case True
      then have "rotation cfg net q n tried le s1 = (Inl e, s')"
        using Suc.prems g by simp
      moreover have "journal s1 \<noteq> [] \<and> (\<forall>p q' g. last (journal s1) \<noteq> Call p q' (Inr g))"
        using Suc.prems(2) by (simp add: s1_def)
      ultimately show ?thesis by (rule Suc.IH)
    next
      case nt: False
      define r where "r = net (journal s1) p q"
      define s2 where "s2 = s1\<lparr>journal := journal s1 @ [Call p q r]\<rparr>"
      have c: "callProvider net p q s1 = (r, s2)"
        by (simp add: callProvider_def r_def s2_def Let_def)
      show ?thesis
      proof (cases r)
        case (Inr generated)
        then show ?thesis using Suc.prems g nt c by simp
      next
        case (Inl e')
        then have "rotation cfg net q n (p # tried) (Some e') s2 = (Inl e, s')"
          using Suc.prems g nt c by simp
        moreover have "journal s2 \<noteq> [] \<and> (\<forall>p q' g. last (journal s2) \<noteq> Call p q' (Inr g))"
          using Inl by (simp add: s2_def)
        ultimately show ?thesis by (rule Suc.IH)
      qed
    qed
  qed
qed

lemma generate_effect:
  "\<exists>k new. snd (generateWithRotation cfg net q m s)
       = s\<lparr>providerIndex := providerIndex s + k, journal := journal s @ Generate q m # new\<rparr>
     \<and> (\<forall>ev\<in>set new. \<exists>p r. ev = Call p q r)"
proof (cases "providers cfg = []")
  case True
  have "snd (generateWithRotation cfg net q m s)
       = s\<lparr>providerIndex := providerIndex s + 0, journal := journal s @ Generate q m # []\<rparr>
     \<and> (\<forall>ev\<in>set []. \<exists>p r. ev = Call p q r)"
    using True by (simp add: generateWithRotation_def)
  then show ?thesis by blast
next
  case False
  define s0 where "s0 = s\<lparr>journal := journal s @ [Generate q m]\<rparr>"
  from rotation_effect [of "nat (min m (int (length (providers cfg))))" cfg net q "[]" None s0]
  obtain k new where kn: "snd (rotation cfg net q (nat (min m (int (length (providers cfg))))) [] None s0)
       = s0\<lparr>providerIndex := providerIndex s0 + k, journal := journal s0 @ new\<rparr>"
     "\<forall>ev\<in>set new. \<exists>p r. ev = Call p q r" by blast
  have "snd (generateWithRotation cfg net q m s)
       = s\<lparr>providerIndex := providerIndex s + k, journal := journal s @ Generate q m # new\<rparr>"
    using False kn(1) by (simp add: generateWithRotation_def Let_def s0_def)
  with kn(2) show ?thesis by blast
qed

lemma generate_first_call:
  assumes "providers cfg \<noteq> []" and "0 < m"
  shows "\<exists>r rest. appended s (snd (generateWithRotation cfg net q m s))
           = Generate q m # Call (providers cfg ! (providerIndex s mod length (providers cfg))) q r # rest"
proof -
  define s0 where "s0 = s\<lparr>journal := journal s @ [Generate q m]\<rparr>"
  from assms have "0 < nat (min m (int (length (providers cfg))))" by simp
  then obtain n where n: "nat (min m (int (length (providers cfg)))) = Suc n"
    using gr0_implies_Suc by blast
  from rotation_first_call [OF assms(1), of net q n None s0] obtain r rest where
    "journal (snd (rotation cfg net q (Suc n) [] None s0))
           = journal s0 @ Call (providers cfg ! (providerIndex s0 mod length (providers cfg))) q r # rest"
    by blast
  then have "appended s (snd (generateWithRotation cfg net q m s))
           = Generate q m # Call (providers cfg ! (providerIndex s mod length (providers cfg))) q r # rest"
    using assms(1) n by (simp add: generateWithRotation_def Let_def s0_def appended_def)
  then show ?thesis by blast
qed

lemma generate_success:
  assumes "generateWithRotation cfg net q m s = (Inr g, s')"
  shows "\<exists>old. journal s' = old @ [Call (providers cfg ! ((providerIndex s' - 1) mod length (providers cfg))) q (Inr g)]
         \<and> length (journal s) < length old \<and> providerIndex s < providerIndex s'"
proof -
  define s0 where "s0 = s\<lparr>journal := journal s @ [Generate q m]\<rparr>"
  from assms have ne: "providers cfg \<noteq> []"
    by (auto simp: generateWithRotation_def Let_def split: if_splits)
  with assms have "rotation cfg net q (nat (min m (int (length (providers cfg))))) [] None s0 = (Inr g, s')"
    by (simp add: generateWithRotation_def Let_def s0_def)
  from rotation_success [OF this] show ?thesis by (auto simp: s0_def)
qed

lemma generate_failure:
  assumes "generateWithRotation cfg net q m s = (Inl e, s')"
  shows "journal s' \<noteq> [] \<and> (\<forall>p q' g. last (journal s') \<noteq> Call p q' (Inr g))"
proof -
  from generate_effect [of cfg net q m s] assms obtain k new where
    s': "s' = s\<lparr>providerIndex := providerIndex s + k, journal := journal s @ Generate q m # new\<rparr>"
    by auto
  show ?thesis
  proof (cases "providers cfg = []")
    case True
    with assms have "s' = s\<lparr>journal := journal s @ [Generate q m]\<rparr>"
      by (simp add: generateWithRotation_def)
    then show ?thesis by simp
  next
    case False
    define s0 where "s0 = s\<lparr>journal := journal s @ [Generate q m]\<rparr>"
    from False assms have
      r: "rotation cfg net q (nat (min m (int (length (providers cfg))))) [] None s0 = (Inl e, s')"
      by (simp add: generateWithRotation_def Let_def s0_def)
    have "journal s0 \<noteq> [] \<and> (\<forall>p q' g. last (journal s0) \<noteq> Call p q' (Inr g))"
      by (simp add: s0_def)
    with r show ?thesis by (rule rotation_failure)
  qed
qed

subsection \<open>The chat handler\<close>

lemma appended_same [simp]: "appended s s = []"
  by (simp add: appended_def)

lemma appended_journal [simp]: "appended s (s\<lparr>journal := journal s @ new\<rparr>) = new"
  by (simp add: appended_def)

lemma answered_iff:
  "answered s s' \<longleftrightarrow> (\<exists>old p q g. appended s s' = old @ [Call p q (Inr g)])"
proof -
  have "(case rev xs of Call p q (Inr g) # es \<Rightarrow> True | _ \<Rightarrow> False)
        \<longleftrightarrow> (\<exists>old p q g. xs = old @ [Call p q (Inr g)])" for xs :: "event list"
  proof (cases xs rule: rev_cases)
    case Nil
    then show ?thesis by simp
  next
    case (snoc ys y)
    then show ?thesis by (cases y) (auto split: sum.splits)
  qed
  then show ?thesis by (simp add: answered_def)
qed

lemma generate_all_succeed:
  assumes "providers cfg \<noteq> []" and "0 < m" and "\<forall>h p. \<not> isl (net h p q)"
  shows "\<exists>g s'. generateWithRotation cfg net q m s = (Inr g, s')"
proof -
  define s0 where "s0 = s\<lparr>journal := journal s @ [Generate q m]\<rparr>"
  from assms have "0 < nat (min m (int (length (providers cfg))))" by simp
  then obtain n where n: "nat (min m (int (length (providers cfg)))) = Suc n"
    using gr0_implies_Suc by blast
  define p where "p = providers cfg ! (providerIndex s0 mod length (providers cfg))"
  define s1 where "s1 = s0\<lparr>providerIndex := providerIndex s0 + 1\<rparr>"
  have g: "getNextProvider cfg s0 = (Some p, s1)"
    using assms(1) by (simp add: getNextProvider_some p_def s1_def)
  define r where "r = net (journal s1) p q"
  define s2 where "s2 = s1\<lparr>journal := journal s1 @ [Call p q r]\<rparr>"
  have c: "callProvider net p q s1 = (r, s2)"
    by (simp add: callProvider_def r_def s2_def Let_def)
  from assms(3) have "\<not> isl r" by (simp add: r_def)
  then obtain t where "r = Inr t" by (cases r) auto
  then have "rotation cfg net q (Suc n) [] None s0 = (Inr t, s2)"
    using g c by simp
  then have "generateWithRotation cfg net q m s = (Inr t, s2)"
    using assms(1) n by (simp add: generateWithRotation_def Let_def s0_def)
  then show ?thesis by blast
qed

text \<open>The outcomes of the chat handler, one by one.\<close>

lemma post_chat_empty:
  "message_of body = [] \<Longrightarrow> post_chat cfg net body s = (Status 400 ''Provide message'', s)"
  by (simp add: post_chat_def)

lemma post_chat_emergency:
  "message_of body \<noteq> [] \<Longrightarrow> checkEmergency (message_of body) \<Longrightarrow>
   post_chat cfg net body s = (Json \<lparr>reply = safety, emergency = True, booking = None\<rparr>, s)"
  by (simp add: post_chat_def)

lemma post_chat_no_providers:
  "message_of body \<noteq> [] \<Longrightarrow> \<not> checkEmergency (message_of body) \<Longrightarrow> providers cfg = [] \<Longrightarrow>
   post_chat cfg net body s =
     (Json \<lparr>reply = demo (message_of body) (retrieveTopK (vectorStore s) (message_of body) 3),
            emergency = False, booking = None\<rparr>,
      s\<lparr>journal := journal s @ [Retrieve (message_of body) 3]\<rparr>)"
  by (simp add: post_chat_def retrieveTopK_call_def Let_def)

lemma post_chat_generated:
  "message_of body \<noteq> [] \<Longrightarrow> \<not> checkEmergency (message_of body) \<Longrightarrow> providers cfg \<noteq> [] \<Longrightarrow>
   generateWithRotation cfg net
     (build_prompt (contextText (retrieveTopK (vectorStore s) (message_of body) 3)) (message_of body)) 3
     (s\<lparr>journal := journal s @ [Retrieve (message_of body) 3]\<rparr>) = (Inr g, s2) \<Longrightarrow>
   post_chat cfg net body s =
     (Json \<lparr>reply = trim g, emergency = False,
            booking = (if booking_intent (message_of body) then Some (BOOKING_LINK cfg) else None)\<rparr>,
      s2)"
  by (simp add: post_chat_def retrieveTopK_call_def Let_def)

lemma post_chat_fallback:
  "message_of body \<noteq> [] \<Longrightarrow> \<not> checkEmergency (message_of body) \<Longrightarrow> providers cfg \<noteq> [] \<Longrightarrow>
   generateWithRotation cfg net
     (build_prompt (contextText (retrieveTopK (vectorStore s) (message_of body) 3)) (message_of body)) 3
     (s\<lparr>journal := journal s @ [Retrieve (message_of body) 3]\<rparr>) = (Inl e, s2) \<Longrightarrow>
   post_chat cfg net body s =
     (Json \<lparr>reply = demo (message_of body) (retrieveTopK (vectorStore s) (message_of body) 3),
            emergency = False, booking = None\<rparr>,
      s2)"
  by (simp add: post_chat_def retrieveTopK_call_def Let_def)

lemma message_of_some [simp]: "message_of (Some \<lparr>message = Some m\<rparr>) = m"
  by (simp add: message_of_def)

lemma retrieveTopK_empty: "docs vs = [] \<Longrightarrow> retrieveTopK vs query k = []"
  by (simp add: retrieveTopK_def retrieveTopK_with_def)

text \<open>
  Claim C4. Every chat request with a non-empty message is answered with status 200 and
  a reply: the safety message, the demo fallback, or the trimmed text that a provider
  generated during the request. With no provider configured, or with every provider
  call failing, the reply is the safety message or the demo fallback.
\<close>

theorem chat_always_replies:
  assumes "m \<noteq> []"
  shows "\<exists>r s'. post_chat cfg net (Some \<lparr>message = Some m\<rparr>) s = (Json r, s')
     \<and> (r = \<lparr>reply = safety, emergency = True, booking = None\<rparr>
        \<or> r = \<lparr>reply = demo m (retrieveTopK (vectorStore s) m 3), emergency = False, booking = None\<rparr>
        \<or> (\<exists>old p q g. appended s s' = old @ [Call p q (Inr g)] \<and> reply r = trim g))
     \<and> (providers cfg = [] \<or> (\<forall>h p q. isl (net h p q)) \<longrightarrow>
          r = \<lparr>reply = safety, emergency = True, booking = None\<rparr>
          \<or> r = \<lparr>reply = demo m (retrieveTopK (vectorStore s) m 3), emergency = False, booking = None\<rparr>)"
proof -
  let ?body = "Some \<lparr>message = Some m\<rparr>"
  let ?s1 = "s\<lparr>journal := journal s @ [Retrieve m 3]\<rparr>"
  let ?q = "build_prompt (contextText (retrieveTopK (vectorStore s) m 3)) m"
  have ne: "message_of ?body \<noteq> []" using assms by simp
  show ?thesis
  proof (cases "checkEmergency m")
    case True
    then show ?thesis using post_chat_emergency [OF ne, of cfg net s] by simp
  next
    case em: False
    show ?thesis
    proof (cases "providers cfg = []")
      case True
      then show ?thesis using post_chat_no_providers [OF ne, of cfg net s] em by simp
    next
      case False
      obtain res s2 where gen: "generateWithRotation cfg net ?q 3 ?s1 = (res, s2)"
        by (cases "generateWithRotation cfg net ?q 3 ?s1") blast
      show ?thesis
      proof (cases res)
        case (Inl e)
        then show ?thesis
          using post_chat_fallback [OF ne, of cfg net s e s2] em False gen by simp
      next
        case (Inr g)
        with gen have ok: "generateWithRotation cfg net ?q 3 ?s1 = (Inr g, s2)" by simp
        from generate_success [OF ok] obtain old where
          old: "journal s2 = old @ [Call (providers cfg ! ((providerIndex s2 - 1) mod length (providers cfg))) ?q (Inr g)]"
            "length (journal ?s1) < length old" by blast
        then have "drop (length (journal s)) (journal s2)
             = drop (length (journal s)) old @ [Call (providers cfg ! ((providerIndex s2 - 1) mod length (providers cfg))) ?q (Inr g)]"
          by simp
        then have app: "\<exists>old p q. appended s s2 = old @ [Call p q (Inr g)]"
          unfolding appended_def by blast
        have notfail: "\<not> (\<forall>h p q. isl (net h p q))"
        proof
          assume "\<forall>h p q. isl (net h p q)"
          then have "\<forall>h p. p \<in> set (providers cfg) \<longrightarrow> isl (net h p ?q)" by simp
          with generate_all_fail [of cfg net ?q 3 ?s1] ok show False by auto
        qed
        have pc: "post_chat cfg net ?body s =
           (Json \<lparr>reply = trim g, emergency = False,
              booking = (if booking_intent m then Some (BOOKING_LINK cfg) else None)\<rparr>, s2)"
          using post_chat_generated [OF ne, of cfg net s g s2] em False ok by simp
        show ?thesis unfolding pc using app notfail False by auto
      qed
    qed
  qed
qed

theorem chat_always_replies_witness:
  "''hello there'' \<noteq> []
   \<and> post_chat cfg_none net_down (Some \<lparr>message = Some ''hello there''\<rparr>) initial_state
      = (Json \<lparr>reply = ''[DEMO] I hear you said: '' @ [apostrophe] @ ''hello there'' @ [apostrophe] @ ''. Retrieved docs: none.'',
               emergency = False, booking = None\<rparr>,
         initial_state\<lparr>journal := [Retrieve ''hello there'' 3]\<rparr>)
   \<and> (\<exists>r s'. post_chat cfg_none net_down (Some \<lparr>message = Some ''hello there''\<rparr>) initial_state = (Json r, s'))"
proof -
  have a: "''hello there'' \<noteq> []" by simp
  have b: "post_chat cfg_none net_down (Some \<lparr>message = Some ''hello there''\<rparr>) initial_state
      = (Json \<lparr>reply = ''[DEMO] I hear you said: '' @ [apostrophe] @ ''hello there'' @ [apostrophe] @ ''. Retrieved docs: none.'',
               emergency = False, booking = None\<rparr>,
         initial_state\<lparr>journal := [Retrieve ''hello there'' 3]\<rparr>)"
  proof -
    have e: "\<not> checkEmergency ''hello there''" by code_simp
    have p: "providers cfg_none = []" by (simp add: providers_def cfg_none_def)
    show ?thesis
      using post_chat_no_providers [of "Some \<lparr>message = Some ''hello there''\<rparr>" cfg_none net_down initial_state] e p
      by (simp add: retrieveTopK_empty demo_def initial_state_def)
  qed
  from chat_always_replies [OF a, of cfg_none net_down initial_state]
  have c: "\<exists>r s'. post_chat cfg_none net_down (Some \<lparr>message = Some ''hello there''\<rparr>) initial_state = (Json r, s')"
    by blast
  show ?thesis by (intro conjI a b c)
qed

lemma book_msg_facts: "book_msg \<noteq> [] \<and> \<not> checkEmergency book_msg \<and> booking_intent book_msg"
  by code_simp

text \<open>
  The message \<open>I'd like to book a session\<close> is no emergency and matches the booking
  pattern, yet with no provider configured the response is the demo fallback, which has
  no \<open>booking\<close> field.
\<close>

theorem booking_missing_in_fallback:
  "\<not> checkEmergency book_msg \<and> booking_intent book_msg
   \<and> post_chat cfg_none net_up (Some \<lparr>message = Some book_msg\<rparr>) initial_state
      = (Json \<lparr>reply = demo book_msg [], emergency = False, booking = None\<rparr>,
         initial_state\<lparr>journal := [Retrieve book_msg 3]\<rparr>)"
proof -
  have p: "providers cfg_none = []" by (simp add: providers_def cfg_none_def)
  have m: "message_of (Some \<lparr>message = Some book_msg\<rparr>) = book_msg" by simp
  show ?thesis
    using post_chat_no_providers [of "Some \<lparr>message = Some book_msg\<rparr>" cfg_none net_up initial_state]
      book_msg_facts p
    unfolding m by (simp add: retrieveTopK_empty initial_state_def)
qed

text \<open>
  Claim C6, amended. In a chat response the \<open>booking\<close> field is present, with the
  configured link as its \<open>url\<close>, exactly when the message matches the booking pattern
  and a provider generated the reply of this request. A request that a provider answered
  is no emergency. When a provider is configured and every provider call succeeds, every
  message that is no emergency is answered by a provider; so the message
  \<open>I'd like to book a session\<close> then gets \<open>booking.url\<close>.
\<close>

theorem booking_field:
  assumes "post_chat cfg net body s = (Json r, s')"
  shows "booking r = (if booking_intent (message_of body) \<and> answered s s'
                      then Some (BOOKING_LINK cfg) else None)
     \<and> (answered s s' \<longrightarrow> \<not> emergency r \<and> \<not> checkEmergency (message_of body))
     \<and> (\<not> checkEmergency (message_of body) \<and> providers cfg \<noteq> [] \<and> (\<forall>h p q. \<not> isl (net h p q))
          \<longrightarrow> answered s s')"
proof -
  let ?m = "message_of body"
  let ?s1 = "s\<lparr>journal := journal s @ [Retrieve ?m 3]\<rparr>"
  let ?q = "build_prompt (contextText (retrieveTopK (vectorStore s) ?m 3)) ?m"
  have ne: "?m \<noteq> []" using assms post_chat_empty [of body cfg net s] by auto
  show ?thesis
  proof (cases "checkEmergency ?m")
    case True
    then show ?thesis using post_chat_emergency [OF ne, of cfg net s] assms
      by (auto simp: answered_def)
  next
    case em: False
    show ?thesis
    proof (cases "providers cfg = []")
      case True
      then show ?thesis using post_chat_no_providers [OF ne em, of cfg net s] assms
        by (auto simp: answered_def)
    next
      case False
      obtain res s2 where gen: "generateWithRotation cfg net ?q 3 ?s1 = (res, s2)"
        by (cases "generateWithRotation cfg net ?q 3 ?s1") blast
      from generate_effect [of cfg net ?q 3 ?s1] gen obtain k new where
        s2: "s2 = ?s1\<lparr>providerIndex := providerIndex ?s1 + k, journal := journal ?s1 @ Generate ?q 3 # new\<rparr>"
        by auto
      have app: "appended s s2 = Retrieve ?m 3 # Generate ?q 3 # new"
        unfolding s2 by (simp add: appended_def)
      show ?thesis
      proof (cases res)
        case (Inl e)
        with gen have ko: "generateWithRotation cfg net ?q 3 ?s1 = (Inl e, s2)" by simp
        from generate_failure [OF ko] have
          last: "journal s2 \<noteq> []" "\<forall>p q' g. last (journal s2) \<noteq> Call p q' (Inr g)" by simp_all
        have "last (appended s s2) = last (journal s2)"
          unfolding app unfolding s2 by simp
        with last(2) app have na: "\<not> answered s s2"
          unfolding answered_iff by (metis last_snoc)
        have "\<not> (\<forall>h p q. \<not> isl (net h p q))"
          using generate_all_succeed [of cfg 3 net ?q ?s1] False ko by auto
        then show ?thesis
          using post_chat_fallback [OF ne em False ko] assms na by auto
      next
        case (Inr g)
        with gen have ok: "generateWithRotation cfg net ?q 3 ?s1 = (Inr g, s2)" by simp
        from generate_success [OF ok] obtain old where
          old: "journal s2 = old @ [Call (providers cfg ! ((providerIndex s2 - 1) mod length (providers cfg))) ?q (Inr g)]"
            "length (journal ?s1) < length old" by blast
        then have "drop (length (journal s)) (journal s2)
             = drop (length (journal s)) old @ [Call (providers cfg ! ((providerIndex s2 - 1) mod length (providers cfg))) ?q (Inr g)]"
          by simp
        then have "answered s s2" unfolding answered_iff appended_def by blast
        then show ?thesis
          using post_chat_generated [OF ne em False ok] assms em by auto
      qed
    qed
  qed
qed


theorem booking_field_witness:
  "post_chat cfg_all net_up (Some \<lparr>message = Some book_msg\<rparr>) initial_state
     = (Json \<lparr>reply = ''hello'', emergency = False, booking = Some ''https://example.org/book''\<rparr>,
        initial_state\<lparr>providerIndex := 1,
          journal := [Retrieve book_msg 3, Generate (build_prompt [] book_msg) 3,
                      Call google (build_prompt [] book_msg) (Inr ''hello'')]\<rparr>)
   \<and> booking_intent (message_of (Some \<lparr>message = Some book_msg\<rparr>))
   \<and> answered initial_state (initial_state\<lparr>providerIndex := 1,
          journal := [Retrieve book_msg 3, Generate (build_prompt [] book_msg) 3,
                      Call google (build_prompt [] book_msg) (Inr ''hello'')]\<rparr>)
   \<and> \<not> checkEmergency (message_of (Some \<lparr>message = Some book_msg\<rparr>))
   \<and> providers cfg_all \<noteq> [] \<and> (\<forall>h p q. \<not> isl (net_up h p q))
   \<and> booking \<lparr>reply = ''hello'', emergency = False, booking = Some ''https://example.org/book''\<rparr>
       = Some (BOOKING_LINK cfg_all)"
proof -
  let ?body = "Some \<lparr>message = Some book_msg\<rparr>"
  let ?q = "build_prompt [] book_msg"
  let ?s' = "initial_state\<lparr>providerIndex := 1,
          journal := [Retrieve book_msg 3, Generate ?q 3, Call google ?q (Inr ''hello'')]\<rparr>"
  have m: "message_of ?body = book_msg" by simp
  have p: "providers cfg_all = [google, openai, huggingface]"
    by (simp add: providers_def cfg_all_def)
  have t: "trim ''hello'' = ''hello''" by code_simp
  have g: "generateWithRotation cfg_all net_up ?q 3
             (initial_state\<lparr>journal := journal initial_state @ [Retrieve book_msg 3]\<rparr>)
           = (Inr ''hello'', ?s')"
  proof -
    have n: "nat (min 3 (int (length (providers cfg_all)))) = Suc (Suc (Suc 0))"
      by (simp add: p)
    show ?thesis
      unfolding generateWithRotation_def Let_def n
      by (simp add: p getNextProvider_def callProvider_def net_up_def initial_state_def Let_def)
  qed
  have r: "retrieveTopK (vectorStore initial_state) book_msg 3 = []"
    by (simp add: retrieveTopK_empty initial_state_def)
  have c: "contextText [] = []" by (simp add: contextText_def)
  have h: "post_chat cfg_all net_up ?body initial_state
     = (Json \<lparr>reply = ''hello'', emergency = False, booking = Some ''https://example.org/book''\<rparr>, ?s')"
  proof -
    have 1: "message_of ?body \<noteq> []" and 2: "\<not> checkEmergency (message_of ?body)"
      using book_msg_facts by simp_all
    have 3: "providers cfg_all \<noteq> []" by (simp add: p)
    have 4: "generateWithRotation cfg_all net_up
        (build_prompt (contextText (retrieveTopK (vectorStore initial_state) (message_of ?body) 3))
           (message_of ?body)) 3
        (initial_state\<lparr>journal := journal initial_state @ [Retrieve (message_of ?body) 3]\<rparr>)
        = (Inr ''hello'', ?s')"
      using g by (simp only: m r c)
    have l: "BOOKING_LINK cfg_all = ''https://example.org/book''" by (simp add: cfg_all_def)
    from post_chat_generated [OF 1 2 3 4] show ?thesis
      using book_msg_facts by (simp add: t l)
  qed
  have a: "answered initial_state ?s'"
    by (simp add: answered_def appended_def initial_state_def)
  have u: "\<forall>h p q. \<not> isl (net_up h p q)" by (simp add: net_up_def)
  note bf = booking_field [OF h]
  show ?thesis
    using bf h a u book_msg_facts m p by simp
qed

subsection \<open>The rotation cursor\<close>

lemma post_index_keeps_cursor: "providerIndex (snd (post_index engine dir s)) = providerIndex s"
  by (simp add: post_index_def Let_def split: sum.splits)

lemma generate_cursor_mono: "providerIndex s \<le> providerIndex (snd (generateWithRotation cfg net q m s))"
proof -
  from generate_effect [of cfg net q m s] obtain k new where
    "snd (generateWithRotation cfg net q m s)
       = s\<lparr>providerIndex := providerIndex s + k, journal := journal s @ Generate q m # new\<rparr>"
    by blast
  then show ?thesis by simp
qed

lemma generate_keeps_store: "vectorStore (snd (generateWithRotation cfg net q m s)) = vectorStore s"
proof -
  from generate_effect [of cfg net q m s] obtain k new where
    "snd (generateWithRotation cfg net q m s)
       = s\<lparr>providerIndex := providerIndex s + k, journal := journal s @ Generate q m # new\<rparr>"
    by blast
  then show ?thesis by simp
qed

lemma post_chat_effect:
  "vectorStore (snd (post_chat cfg net body s)) = vectorStore s
   \<and> providerIndex s \<le> providerIndex (snd (post_chat cfg net body s))"
proof -
  let ?m = "message_of body"
  let ?s1 = "s\<lparr>journal := journal s @ [Retrieve ?m 3]\<rparr>"
  let ?q = "build_prompt (contextText (retrieveTopK (vectorStore s) ?m 3)) ?m"
  have g: "vectorStore (snd (generateWithRotation cfg net ?q 3 ?s1)) = vectorStore s
        \<and> providerIndex s \<le> providerIndex (snd (generateWithRotation cfg net ?q 3 ?s1))"
    using generate_keeps_store [of cfg net ?q 3 ?s1] generate_cursor_mono [of ?s1 cfg net ?q 3]
    by simp
  show ?thesis
  proof (cases "?m = [] \<or> checkEmergency ?m \<or> providers cfg = []")
    case True
    then consider "?m = []" | "?m \<noteq> []" "checkEmergency ?m"
      | "?m \<noteq> []" "\<not> checkEmergency ?m" "providers cfg = []" by blast
    then show ?thesis
    proof cases
      case 1
      then show ?thesis by (simp add: post_chat_empty)
    next
      case 2
      then show ?thesis by (simp add: post_chat_emergency)
    next
      case 3
      then show ?thesis by (simp add: post_chat_no_providers)
    qed
  next
    case False
    obtain res s2 where gen: "generateWithRotation cfg net ?q 3 ?s1 = (res, s2)"
      by (cases "generateWithRotation cfg net ?q 3 ?s1") blast
    with g have s2: "vectorStore s2 = vectorStore s \<and> providerIndex s \<le> providerIndex s2" by simp
    show ?thesis
    proof (cases res)
      case (Inl e)
      with gen False post_chat_fallback [of body cfg net s e s2] s2 show ?thesis by simp
    next
      case (Inr t)
      with gen False post_chat_generated [of body cfg net s t s2] s2 show ?thesis by simp
    qed
  qed
qed

lemma calls_of_append [simp]: "calls_of (xs @ ys) = calls_of xs @ calls_of ys"
  by (induction xs rule: calls_of.induct) auto

text \<open>
  Claim C9. With a provider configured, \<open>getNextProvider\<close> returns the provider at
  position \<open>providerIndex mod length\<close> and adds exactly one to \<open>providerIndex\<close>. No
  operation lowers \<open>providerIndex\<close>: \<open>generateWithRotation\<close> and the chat handler can
  only raise it, the index handler keeps it. When a call of \<open>generateWithRotation\<close>
  succeeded, its last provider call was at position \<open>j mod length\<close> for the \<open>j\<close> one
  below the new \<open>providerIndex\<close>, and the next call of \<open>generateWithRotation\<close> (with
  a positive bound, from a state with that \<open>providerIndex\<close>) first calls the provider at
  position \<open>(j + 1) mod length\<close>.
\<close>

theorem cursor_round_robin:
  assumes "providers cfg \<noteq> []"
  shows "getNextProvider cfg s
           = (Some (providers cfg ! (providerIndex s mod length (providers cfg))),
              s\<lparr>providerIndex := providerIndex s + 1\<rparr>)
     \<and> providerIndex s \<le> providerIndex (snd (generateWithRotation cfg net q m s))
     \<and> providerIndex s \<le> providerIndex (snd (post_chat cfg net body s))
     \<and> providerIndex (snd (post_index engine dir s)) = providerIndex s
     \<and> (\<forall>g s1 s2 net' q' m'.
          generateWithRotation cfg net q m s = (Inr g, s1) \<and> providerIndex s2 = providerIndex s1 \<and> 0 < m'
          \<longrightarrow> (\<exists>j. providerIndex s1 = Suc j
                 \<and> last (calls_of (appended s s1)) = providers cfg ! (j mod length (providers cfg))
                 \<and> hd (calls_of (appended s2 (snd (generateWithRotation cfg net' q' m' s2))))
                     = providers cfg ! (Suc j mod length (providers cfg))))"
proof -
  have rot: "\<exists>j. providerIndex s1 = Suc j
                 \<and> last (calls_of (appended s s1)) = providers cfg ! (j mod length (providers cfg))
                 \<and> hd (calls_of (appended s2 (snd (generateWithRotation cfg net' q' m' s2))))
                     = providers cfg ! (Suc j mod length (providers cfg))"
    if ok: "generateWithRotation cfg net q m s = (Inr g, s1)"
      and same: "providerIndex s2 = providerIndex s1" and pos: "0 < m'"
    for g s1 s2 and net' :: network and q' m'
  proof -
    from generate_success [OF ok] obtain old where
      old: "journal s1 = old @ [Call (providers cfg ! ((providerIndex s1 - 1) mod length (providers cfg))) q (Inr g)]"
        "length (journal s) < length old" "providerIndex s < providerIndex s1" by blast
    then obtain j where j: "providerIndex s1 = Suc j" by (cases "providerIndex s1") auto
    from old(1,2) have "appended s s1
        = drop (length (journal s)) old @ [Call (providers cfg ! (j mod length (providers cfg))) q (Inr g)]"
      by (simp add: appended_def j)
    then have l: "last (calls_of (appended s s1)) = providers cfg ! (j mod length (providers cfg))"
      by simp
    from generate_first_call [OF assms pos, of s2 net' q'] obtain r rest where
      "appended s2 (snd (generateWithRotation cfg net' q' m' s2))
         = Generate q' m' # Call (providers cfg ! (providerIndex s2 mod length (providers cfg))) q' r # rest"
      by blast
    then have "hd (calls_of (appended s2 (snd (generateWithRotation cfg net' q' m' s2))))
        = providers cfg ! (Suc j mod length (providers cfg))"
      by (simp add: same j)
    with j l show ?thesis by blast
  qed
  show ?thesis
    using getNextProvider_some [OF assms, of s] generate_cursor_mono [of s cfg net q m]
      post_chat_effect [of cfg net body s] post_index_keeps_cursor [of engine dir s] rot
    by blast
qed


theorem cursor_round_robin_witness:
  "providers cfg_all \<noteq> []
   \<and> generateWithRotation cfg_all net_up ''hi'' 3 initial_state
       = (Inr ''hello'',
          initial_state\<lparr>providerIndex := 1,
            journal := [Generate ''hi'' 3, Call google ''hi'' (Inr ''hello'')]\<rparr>)
   \<and> (0::int) < 1
   \<and> last (calls_of (appended initial_state
         (initial_state\<lparr>providerIndex := 1,
            journal := [Generate ''hi'' 3, Call google ''hi'' (Inr ''hello'')]\<rparr>))) = google
   \<and> hd (calls_of (appended
         (initial_state\<lparr>providerIndex := 1,
            journal := [Generate ''hi'' 3, Call google ''hi'' (Inr ''hello'')]\<rparr>)
         (snd (generateWithRotation cfg_all net_down ''again'' 1
            (initial_state\<lparr>providerIndex := 1,
               journal := [Generate ''hi'' 3, Call google ''hi'' (Inr ''hello'')]\<rparr>))))) = openai"
proof -
  let ?s1 = "initial_state\<lparr>providerIndex := 1,
            journal := [Generate ''hi'' 3, Call google ''hi'' (Inr ''hello'')]\<rparr>"
  have p: "providers cfg_all = [google, openai, huggingface]"
    by (simp add: providers_def cfg_all_def)
  have ne: "providers cfg_all \<noteq> []" by (simp add: p)
  have n: "nat (min 3 (int (length (providers cfg_all)))) = Suc (Suc (Suc 0))"
    by (simp add: p)
  have g: "generateWithRotation cfg_all net_up ''hi'' 3 initial_state = (Inr ''hello'', ?s1)"
    unfolding generateWithRotation_def Let_def n
    by (simp add: p getNextProvider_def callProvider_def net_up_def initial_state_def Let_def)
  have i: "providerIndex ?s1 = Suc 0" by simp
  from cursor_round_robin [OF ne, of initial_state net_up "''hi''" 3]
  have "\<forall>g s1 s2 net' q' m'.
          generateWithRotation cfg_all net_up ''hi'' 3 initial_state = (Inr g, s1)
          \<and> providerIndex s2 = providerIndex s1 \<and> 0 < m'
          \<longrightarrow> (\<exists>j. providerIndex s1 = Suc j
                 \<and> last (calls_of (appended initial_state s1)) = providers cfg_all ! (j mod length (providers cfg_all))
                 \<and> hd (calls_of (appended s2 (snd (generateWithRotation cfg_all net' q' m' s2))))
                     = providers cfg_all ! (Suc j mod length (providers cfg_all)))"
    by blast
  from this [rule_format, of "''hello''" ?s1 ?s1 1 net_down "''again''"] g
  have "\<exists>j. providerIndex ?s1 = Suc j
       \<and> last (calls_of (appended initial_state ?s1)) = providers cfg_all ! (j mod length (providers cfg_all))
       \<and> hd (calls_of (appended ?s1 (snd (generateWithRotation cfg_all net_down ''again'' 1 ?s1))))
           = providers cfg_all ! (Suc j mod length (providers cfg_all))"
    by simp
  then have "last (calls_of (appended initial_state ?s1)) = providers cfg_all ! (0 mod length (providers cfg_all))
       \<and> hd (calls_of (appended ?s1 (snd (generateWithRotation cfg_all net_down ''again'' 1 ?s1))))
           = providers cfg_all ! (Suc 0 mod length (providers cfg_all))"
    unfolding i by blast
  then have "last (calls_of (appended initial_state ?s1)) = google
       \<and> hd (calls_of (appended ?s1 (snd (generateWithRotation cfg_all net_down ''again'' 1 ?s1)))) = openai"
    by (simp add: p)
  with ne g show ?thesis by simp
qed

subsection \<open>Sizes of the vocabulary and of the embeddings\<close>

lemma length_tfvec: "length (tfvec txt v) = length v"
  by (simp add: tfvec_def Let_def)

lemma length_buildVocab: "0 \<le> maxV \<Longrightarrow> length (buildVocab engine ds maxV) \<le> nat maxV"
  by (simp add: buildVocab_def Let_def slice0_def)

lemma post_index_store_ok:
  "store_ok (vectorStore s) \<Longrightarrow> store_ok (vectorStore (snd (post_index engine dir s)))"
proof -
  assume ok: "store_ok (vectorStore s)"
  have "length (buildVocab engine ds 400) \<le> 400" for ds :: "doc list"
    using length_buildVocab [of 400 engine ds] by simp
  then show ?thesis
    using ok
    by (auto simp: post_index_def Let_def store_ok_def length_tfvec list_all_iff split: sum.splits)
qed

lemma reachable_store_ok: "reachable cfg s \<Longrightarrow> store_ok (vectorStore s)"
proof (induction rule: reachable.induct)
  case start
  show ?case by (simp add: initial_state_def store_ok_def)
next
  case (indexed s engine dir)
  from indexed.IH show ?case by (rule post_index_store_ok)
next
  case (chatted s net body)
  then show ?case using post_chat_effect [of cfg net body s] by simp
qed

text \<open>
  Claim C10. In every state of the process, the vocabulary has at most 400 terms, every
  stored embedding has the length of the vocabulary, and the embedding \<open>tfvec\<close> makes
  of any query has the length of the vocabulary.
\<close>

theorem vocabulary_and_embedding_sizes:
  assumes "reachable cfg s"
  shows "length (vocab (vectorStore s)) \<le> 400
     \<and> (\<forall>d\<in>set (docs (vectorStore s)). length (embedding d) = length (vocab (vectorStore s)))
     \<and> (\<forall>query. length (tfvec query (vocab (vectorStore s))) = length (vocab (vectorStore s)))"
proof -
  have a: "store_ok (vectorStore s)" using assms by (rule reachable_store_ok)
  then show ?thesis
    by (simp add: store_ok_def list_all_iff length_tfvec)
qed

theorem vocabulary_and_embedding_sizes_witness:
  "reachable cfg_all (snd (post_index engine_id fs_root_only initial_state))
   \<and> vectorStore (snd (post_index engine_id fs_root_only initial_state))
       = \<lparr>docs = [\<lparr>docId = ''my_data.txt'', docText = ''Breathe in. Breathe out. 7 times.'',
                    embedding = [2, 1, 1, 1, 1]\<rparr>],
          vocab = [''breathe'', ''7'', ''in'', ''out'', ''times'']\<rparr>
   \<and> length (vocab (vectorStore (snd (post_index engine_id fs_root_only initial_state)))) \<le> 400
   \<and> length (tfvec ''breathe slowly'' (vocab (vectorStore (snd (post_index engine_id fs_root_only initial_state)))))
       = length (vocab (vectorStore (snd (post_index engine_id fs_root_only initial_state))))"
proof -
  have r: "reachable cfg_all (snd (post_index engine_id fs_root_only initial_state))"
    by (rule reachable.indexed [OF reachable.start])
  have v: "vectorStore (snd (post_index engine_id fs_root_only initial_state))
       = \<lparr>docs = [\<lparr>docId = ''my_data.txt'', docText = ''Breathe in. Breathe out. 7 times.'',
                    embedding = [2, 1, 1, 1, 1]\<rparr>],
          vocab = [''breathe'', ''7'', ''in'', ''out'', ''times'']\<rparr>"
    by code_simp
  from vocabulary_and_embedding_sizes [OF r] r v show ?thesis by blast
qed

subsection \<open>The index handler\<close>

lemma post_index_failure_keeps_state:
  "post_index engine dir s = (Status n e, s') \<Longrightarrow> s' = s"
  by (auto simp: post_index_def Let_def split: sum.splits if_splits)

lemma discover_empty_iff:
  "discover dir = Inr [] \<longleftrightarrow>
     \<not> existsSync dir ''my_data.txt'' \<and>
     (case map_of dir ''knowledge'' of
        None \<Rightarrow> True
      | Some (File t) \<Rightarrow> False
      | Some (Dir es) \<Rightarrow> \<forall>f\<in>set (map fst es). \<not> (endsWith f ''.txt'' \<or> endsWith f ''.md''))"
  by (auto simp: discover_def existsSync_def readdirSync_def filter_empty_conv
      split: option.splits node.splits sum.splits)

text \<open>
  Claim C5. When the discovery finds no document (no \<open>my_data.txt\<close>, and the folder
  \<open>knowledge\<close> absent or without a name ending in \<open>.txt\<close> or \<open>.md\<close>), the index
  handler answers with
  status 400 and the \<open>No knowledge files found\<close> message, and the state of the process,
  the vector store with it, is the one before. Whatever the install directory holds, an
  index request that fails (any status other than 200) leaves the state as it was.
\<close>

theorem index_without_documents:
  assumes "discover dir = Inr []"
  shows "post_index engine dir s =
        (Status 400 ''No knowledge files found. Add .txt/.md to ./knowledge or place my_data.txt'', s)
     \<and> (\<forall>dir' n e s'. post_index engine dir' s = (Status n e, s') \<longrightarrow> s' = s)"
  using assms post_index_failure_keeps_state by (auto simp: post_index_def)

theorem index_without_documents_witness:
  "discover fs_empty_folder = Inr []
   \<and> docs (vectorStore (snd (post_index engine_id fs_root_only initial_state))) \<noteq> []
   \<and> post_index engine_id fs_empty_folder (snd (post_index engine_id fs_root_only initial_state))
      = (Status 400 ''No knowledge files found. Add .txt/.md to ./knowledge or place my_data.txt'',
         snd (post_index engine_id fs_root_only initial_state))"
proof -
  have d: "discover fs_empty_folder = Inr []" by code_simp
  have n: "docs (vectorStore (snd (post_index engine_id fs_root_only initial_state))) \<noteq> []"
    by code_simp
  from index_without_documents [OF d, of engine_id "snd (post_index engine_id fs_root_only initial_state)"]
    d n show ?thesis by blast
qed

lemma read_docs_fails:
  "fn \<in> set files \<Longrightarrow> \<forall>t. map_of dir fn \<noteq> Some (File t) \<Longrightarrow> \<exists>e. read_docs dir files = Inl e"
proof (induction files)
  case Nil
  then show ?case by simp
next
  case (Cons a files)
  then show ?case
    by (auto simp: readFileSync_def split: sum.splits option.splits node.splits)
qed

lemma read_docs_succeeds:
  "\<forall>fn\<in>set files. map_of dir fn = Some (File (content fn)) \<Longrightarrow>
   read_docs dir files = Inr (map (\<lambda>fn. \<lparr>docId = fn, docText = content fn\<rparr>) files)"
  by (induction files) (auto simp: readFileSync_def)

lemma discover_knowledge:
  assumes "map_of dir ''knowledge'' = Some (Dir es)"
    and "filter (\<lambda>f. endsWith f ''.txt'' \<or> endsWith f ''.md'') (map fst es) \<noteq> []"
  shows "discover dir = Inr (filter (\<lambda>f. endsWith f ''.txt'' \<or> endsWith f ''.md'') (map fst es))"
  using assms unfolding discover_def existsSync_def readdirSync_def
  by (simp del: filter_map length_filter_map)

text \<open>
  Claim C7. Let the folder \<open>knowledge\<close> hold at least one name ending in \<open>.txt\<close> or
  \<open>.md\<close>. If one of these names is no file of the install directory itself, the index
  handler answers with status 500 and \<open>index failed\<close> and changes nothing. If each of
  them is a file of the install directory, the stored documents carry the text of
  those files, whatever the files inside the folder contain.
\<close>

theorem index_reads_install_directory:
  assumes "map_of dir ''knowledge'' = Some (Dir es)"
    and "files = filter (\<lambda>f. endsWith f ''.txt'' \<or> endsWith f ''.md'') (map fst es)"
    and "files \<noteq> []"
  shows "((\<exists>fn\<in>set files. \<forall>t. map_of dir fn \<noteq> Some (File t)) \<longrightarrow>
            post_index engine dir s = (Status 500 ''index failed'', s))
     \<and> ((\<forall>fn\<in>set files. map_of dir fn = Some (File (content fn))) \<longrightarrow>
            (\<exists>s'. post_index engine dir s = (Json \<lparr>ok = True, indexed = length files\<rparr>, s')
               \<and> map (\<lambda>d. (docId d, docText d)) (docs (vectorStore s')) = map (\<lambda>fn. (fn, content fn)) files))"
proof -
  have d: "discover dir = Inr files" using assms discover_knowledge by simp
  have 1: "post_index engine dir s = (Status 500 ''index failed'', s)"
    if "\<exists>fn\<in>set files. \<forall>t. map_of dir fn \<noteq> Some (File t)"
  proof -
    from that read_docs_fails obtain e where "read_docs dir files = Inl e" by blast
    then show ?thesis using d assms(3) by (simp add: post_index_def)
  qed
  have 2: "\<exists>s'. post_index engine dir s = (Json \<lparr>ok = True, indexed = length files\<rparr>, s')
               \<and> map (\<lambda>d. (docId d, docText d)) (docs (vectorStore s')) = map (\<lambda>fn. (fn, content fn)) files"
    if "\<forall>fn\<in>set files. map_of dir fn = Some (File (content fn))"
  proof -
    from that have "read_docs dir files = Inr (map (\<lambda>fn. \<lparr>docId = fn, docText = content fn\<rparr>) files)"
      by (rule read_docs_succeeds)
    then show ?thesis using d assms(3) by (simp add: post_index_def Let_def comp_def)
  qed
  from 1 2 show ?thesis by blast
qed


theorem index_reads_install_directory_witness:
  "map_of fs_knowledge_only ''knowledge'' = Some (Dir [(''calm.txt'', File ''inside the folder'')])
   \<and> [''calm.txt''] = filter (\<lambda>f. endsWith f ''.txt'' \<or> endsWith f ''.md'')
                         (map fst [(''calm.txt'', File ''inside the folder'')])
   \<and> (\<exists>fn\<in>set [''calm.txt'']. \<forall>t. map_of fs_knowledge_only fn \<noteq> Some (File t))
   \<and> post_index engine_id fs_knowledge_only initial_state = (Status 500 ''index failed'', initial_state)
   \<and> map_of fs_knowledge ''knowledge''
       = Some (Dir [(''calm.txt'', File ''inside the folder''), (''notes.pdf'', File ''x'')])
   \<and> [''calm.txt''] = filter (\<lambda>f. endsWith f ''.txt'' \<or> endsWith f ''.md'')
                         (map fst [(''calm.txt'', File ''inside the folder''), (''notes.pdf'', File ''x'')])
   \<and> map_of fs_knowledge ''calm.txt'' = Some (File ''Rest, then rest again.'')
   \<and> (\<exists>s'. post_index engine_id fs_knowledge initial_state
               = (Json \<lparr>ok = True, indexed = length [''calm.txt'']\<rparr>, s')
          \<and> map (\<lambda>d. (docId d, docText d)) (docs (vectorStore s'))
              = map (\<lambda>fn. (fn, ''Rest, then rest again.'')) [''calm.txt''])"
proof -
  have a1: "map_of fs_knowledge_only ''knowledge'' = Some (Dir [(''calm.txt'', File ''inside the folder'')])"
    by (simp add: fs_knowledge_only_def)
  have a2: "[''calm.txt''] = filter (\<lambda>f. endsWith f ''.txt'' \<or> endsWith f ''.md'')
                         (map fst [(''calm.txt'', File ''inside the folder'')])"
    by code_simp
  have a3: "[''calm.txt''] \<noteq> []" by simp
  have a4: "\<exists>fn\<in>set [''calm.txt'']. \<forall>t. map_of fs_knowledge_only fn \<noteq> Some (File t)"
    by (simp add: fs_knowledge_only_def)
  have b1: "map_of fs_knowledge ''knowledge''
       = Some (Dir [(''calm.txt'', File ''inside the folder''), (''notes.pdf'', File ''x'')])"
    by (simp add: fs_knowledge_def)
  have b2: "[''calm.txt''] = filter (\<lambda>f. endsWith f ''.txt'' \<or> endsWith f ''.md'')
                         (map fst [(''calm.txt'', File ''inside the folder''), (''notes.pdf'', File ''x'')])"
    by code_simp
  have b4: "\<forall>fn\<in>set [''calm.txt'']. map_of fs_knowledge fn = Some (File ''Rest, then rest again.'')"
    by (simp add: fs_knowledge_def)
  from index_reads_install_directory [OF a1 a2 a3, where engine = engine_id and s = initial_state] a4
  have c1: "post_index engine_id fs_knowledge_only initial_state = (Status 500 ''index failed'', initial_state)"
    by blast
  from index_reads_install_directory [OF b1 b2 a3, where engine = engine_id and s = initial_state
      and content = "\<lambda>fn. ''Rest, then rest again.''"] b4
  have c2: "\<exists>s'. post_index engine_id fs_knowledge initial_state
               = (Json \<lparr>ok = True, indexed = length [''calm.txt'']\<rparr>, s')
          \<and> map (\<lambda>d. (docId d, docText d)) (docs (vectorStore s'))
              = map (\<lambda>fn. (fn, ''Rest, then rest again.'')) [''calm.txt'']"
    by blast
  have b5: "map_of fs_knowledge ''calm.txt'' = Some (File ''Rest, then rest again.'')"
    by (simp add: fs_knowledge_def)
  show ?thesis by (intro conjI a1 a2 a4 c1 b1 b2 b5 c2)
qed

subsection \<open>Retrieval\<close>

lemma insort_key_map:
  "insort_key f (g x) (map g ys) = map g (insort_key (\<lambda>y. f (g y)) x ys)"
  by (induction ys) simp_all

lemma sort_key_map: "sort_key f (map g xs) = map g (sort_key (\<lambda>y. f (g y)) xs)"
  by (induction xs) (simp_all add: insort_key_map)

lemma slice0_map: "slice0 (map f xs) k = map f (slice0 xs k)"
  by (simp add: slice0_def take_map)

lemma slice0_prefix: "prefix (slice0 xs k) xs"
  by (simp add: slice0_def take_is_prefix)

lemma length_slice0:
  "length (slice0 xs k) = (if k < 0 then length xs - nat (- k) else min (nat k) (length xs))"
  by (auto simp: slice0_def)

lemma sorted_wrt_prefix: "prefix xs ys \<Longrightarrow> sorted_wrt R ys \<Longrightarrow> sorted_wrt R xs"
  by (auto simp: prefix_def sorted_wrt_append)

text \<open>The ranking of any similarity function, cut by \<open>slice\<close>.\<close>

lemma retrieveTopK_with_eq:
  "retrieveTopK_with sim vs query k
     = slice0 (sort_key (\<lambda>d. - sim (tfvec query (vocab vs)) (embedding d)) (docs vs)) k"
proof (cases "docs vs = []")
  case True
  then show ?thesis by (simp add: retrieveTopK_with_def slice0_def)
next
  case False
  have "map fst (sort_key (\<lambda>x. - snd x) (map (\<lambda>d. (d, sim (tfvec query (vocab vs)) (embedding d))) (docs vs)))
        = sort_key (\<lambda>d. - sim (tfvec query (vocab vs)) (embedding d)) (docs vs)"
    by (simp add: sort_key_map comp_def)
  then show ?thesis using False
    by (simp add: retrieveTopK_with_def Let_def slice0_map [symmetric])
qed

lemma ranking_with:
  fixes sim :: "nat list \<Rightarrow> nat list \<Rightarrow> real"
  defines "sc \<equiv> \<lambda>vs query d. sim (tfvec query (vocab vs)) (embedding d)"
  shows "length (retrieveTopK_with sim vs query k)
           = (if k < 0 then length (docs vs) - nat (- k) else min (nat k) (length (docs vs)))
     \<and> sorted_wrt (\<lambda>a b. sc vs query b \<le> sc vs query a) (retrieveTopK_with sim vs query k)
     \<and> (\<forall>c. prefix (filter (\<lambda>d. sc vs query d = c) (retrieveTopK_with sim vs query k))
                    (filter (\<lambda>d. sc vs query d = c) (docs vs)))
     \<and> (\<exists>rest. mset (retrieveTopK_with sim vs query k @ rest) = mset (docs vs)
           \<and> (\<forall>a\<in>set (retrieveTopK_with sim vs query k). \<forall>b\<in>set rest. sc vs query b \<le> sc vs query a))"
proof -
  let ?f = "\<lambda>d. - sc vs query d"
  let ?full = "sort_key ?f (docs vs)"
  let ?r = "retrieveTopK_with sim vs query k"
  have r: "?r = slice0 ?full k" by (simp add: retrieveTopK_with_eq sc_def)
  have pre: "prefix ?r ?full" unfolding r by (rule slice0_prefix)
  then obtain rest where rest: "?full = ?r @ rest" by (auto simp: prefix_def)
  have "sorted (map ?f ?full)" by simp
  then have full: "sorted_wrt (\<lambda>a b. sc vs query b \<le> sc vs query a) ?full"
    by (simp add: sorted_map)
  have 1: "length ?r = (if k < 0 then length (docs vs) - nat (- k) else min (nat k) (length (docs vs)))"
    unfolding r by (simp add: length_slice0)
  have 2: "sorted_wrt (\<lambda>a b. sc vs query b \<le> sc vs query a) ?r"
    using pre full by (rule sorted_wrt_prefix)
  have 3: "prefix (filter (\<lambda>d. sc vs query d = c) ?r) (filter (\<lambda>d. sc vs query d = c) (docs vs))" for c
  proof -
    have "filter (\<lambda>d. ?f d = - c) ?full = filter (\<lambda>d. ?f d = - c) (docs vs)"
      by (rule sort_key_stable)
    then have "filter (\<lambda>d. sc vs query d = c) ?full = filter (\<lambda>d. sc vs query d = c) (docs vs)"
      by simp
    with filter_mono_prefix [OF pre, of "\<lambda>d. sc vs query d = c"] show ?thesis by simp
  qed
  have "mset (?r @ rest) = mset (docs vs)" using rest by (metis mset_sort)
  moreover have "\<forall>a\<in>set ?r. \<forall>b\<in>set rest. sc vs query b \<le> sc vs query a"
    using full unfolding rest by (simp add: sorted_wrt_append)
  ultimately have 4: "\<exists>rest. mset (?r @ rest) = mset (docs vs)
           \<and> (\<forall>a\<in>set ?r. \<forall>b\<in>set rest. sc vs query b \<le> sc vs query a)" by blast
  from 1 2 3 4 show ?thesis by blast
qed


lemma retrieveTopK_ranking_aux:
  "length (retrieveTopK vs query k)
      = (if k < 0 then length (docs vs) - nat (- k) else min (nat k) (length (docs vs)))
   \<and> sorted_wrt (\<lambda>a b. score vs query b \<le> score vs query a) (retrieveTopK vs query k)
   \<and> (\<forall>c. prefix (filter (\<lambda>d. score vs query d = c) (retrieveTopK vs query k))
                  (filter (\<lambda>d. score vs query d = c) (docs vs)))
   \<and> (\<exists>rest. mset (retrieveTopK vs query k @ rest) = mset (docs vs)
         \<and> (\<forall>a\<in>set (retrieveTopK vs query k). \<forall>b\<in>set rest. score vs query b \<le> score vs query a))"
  using ranking_with [of cosine vs query k]
  unfolding retrieveTopK_def score_def .

text \<open>
  Claim C3, amended. For every store, query and integer \<open>k\<close>, \<open>retrieveTopK\<close> returns
  \<open>min k (number of stored documents)\<close> documents when \<open>k\<close> is not negative, and all but
  the last \<open>-k\<close> documents of the ranking when \<open>k\<close> is negative. What it returns is
  sorted by non-increasing similarity; the returned documents of one similarity are the
  first stored documents of that similarity, in storage order; the stored documents it
  leaves out are no more similar than the returned ones. It returns nothing when the
  store is empty or \<open>k = 0\<close>.
\<close>

theorem retrieveTopK_ranking:
  "length (retrieveTopK vs query k)
      = (if k < 0 then length (docs vs) - nat (- k) else min (nat k) (length (docs vs)))
   \<and> sorted_wrt (\<lambda>a b. score vs query b \<le> score vs query a) (retrieveTopK vs query k)
   \<and> (\<forall>c. prefix (filter (\<lambda>d. score vs query d = c) (retrieveTopK vs query k))
                  (filter (\<lambda>d. score vs query d = c) (docs vs)))
   \<and> (\<exists>rest. mset (retrieveTopK vs query k @ rest) = mset (docs vs)
         \<and> (\<forall>a\<in>set (retrieveTopK vs query k). \<forall>b\<in>set rest. score vs query b \<le> score vs query a))
   \<and> (docs vs = [] \<or> k = 0 \<longrightarrow> retrieveTopK vs query k = [])"
proof -
  have "retrieveTopK vs query k = []" if "docs vs = [] \<or> k = 0"
    using that retrieveTopK_ranking_aux [of vs query k] by auto
  with retrieveTopK_ranking_aux [of vs query k] show ?thesis by blast
qed

text \<open>The store after indexing two one-word files, and the ranking of a query in it.\<close>

lemma store_two_indexed: "vectorStore (snd (post_index engine_id fs_two initial_state)) = store_two"
  by code_simp

lemma tfvec_calm: "tfvec ''calm'' [''rest'', ''calm''] = [0, 1]"
  by code_simp

lemma score_rest: "score store_two ''calm'' doc_rest = 0"
  by (simp add: score_def store_two_def doc_rest_def tfvec_calm cosine_def)

lemma score_calm: "score store_two ''calm'' doc_calm = 1 / (1 + 1 / 10 ^ 12)"
  by (simp add: score_def store_two_def doc_calm_def tfvec_calm cosine_def norm_vec_def)

lemma ranking_two:
  "sort_key (\<lambda>d. - cosine (tfvec ''calm'' (vocab store_two)) (embedding d)) (docs store_two)
     = [doc_calm, doc_rest]"
proof -
  have "sort_key (\<lambda>d. - score store_two ''calm'' d) [doc_rest, doc_calm] = [doc_calm, doc_rest]"
    by (simp add: score_rest score_calm)
  then show ?thesis by (simp add: score_def store_two_def)
qed

text \<open>
  With two stored documents and \<open>k = -1\<close>, \<open>slice(0, -1)\<close> drops the last document of
  the ranking only: one document is returned, though \<open>k \<le> 0\<close>.
\<close>

theorem retrieveTopK_negative_k:
  "retrieveTopK store_two ''calm'' (- 1) = [doc_calm]"
  by (simp add: retrieveTopK_def retrieveTopK_with_eq ranking_two slice0_def)

theorem retrieveTopK_ranking_witness:
  "retrieveTopK store_two ''calm'' 0 = []
   \<and> length (retrieveTopK store_two ''calm'' 1) = 1
   \<and> retrieveTopK store_two ''calm'' 1 = [doc_calm]
   \<and> docs store_two = [doc_rest, doc_calm]"
proof -
  have d: "docs store_two = [doc_rest, doc_calm]" by (simp add: store_two_def)
  from retrieveTopK_ranking [of store_two "''calm''" 0]
  have a: "retrieveTopK store_two ''calm'' 0 = []" by blast
  from retrieveTopK_ranking [of store_two "''calm''" 1]
  have b: "length (retrieveTopK store_two ''calm'' 1) = 1" by (simp add: d)
  have c: "retrieveTopK store_two ''calm'' 1 = [doc_calm]"
    by (simp add: retrieveTopK_def retrieveTopK_with_eq ranking_two slice0_def)
  show ?thesis by (intro conjI a b c d)
qed

subsection \<open>Vocabulary\<close>

lemma first_seen_snoc:
  "first_seen (ts @ [t]) = (if t \<in> set ts then first_seen ts else first_seen ts @ [t])"
  by (simp add: first_seen_def)

lemma set_first_seen [simp]: "set (first_seen ts) = set ts"
  by (simp add: first_seen_def)

lemma distinct_first_seen [simp]: "distinct (first_seen ts)"
  by (simp add: first_seen_def)

lemma tabulates_bump:
  assumes "tabulates f ts" and "inherited t = None"
  shows "tabulates (bump f t) (ts @ [t])"
proof (cases "t \<in> set ts")
  case True
  with assms(1) have m: "map_of f t = Some (Count (count_list ts t))"
    by (simp add: tabulates_def)
  then have b: "bump f t = AList.update t (Count (count_list ts t + 1)) f"
    by (simp add: bump_def)
  from m have "(t, Count (count_list ts t)) \<in> set f" by (rule map_of_SomeD)
  then have "t \<in> fst ` set f" by force
  then have keys: "map fst (bump f t) = map fst f"
    unfolding b by (simp add: update_keys)
  show ?thesis
    unfolding tabulates_def
  proof (intro conjI ballI)
    show "map fst (bump f t) = first_seen (ts @ [t])"
      using keys assms(1) True by (simp add: tabulates_def first_seen_snoc)
    fix k assume "k \<in> set (ts @ [t])"
    with True have k: "k \<in> set ts" by auto
    show "map_of (bump f t) k = Some (Count (count_list (ts @ [t]) k))"
      using assms(1) k unfolding b by (simp add: tabulates_def update_conv')
  qed
next
  case False
  with assms(1) have "t \<notin> fst ` set f"
    by (metis list.set_map set_first_seen tabulates_def)
  then have m: "map_of f t = None" by (simp add: map_of_eq_None_iff)
  then have b: "bump f t = AList.update t (Count 1) f"
    using assms(2) by (simp add: bump_def)
  have keys: "map fst (bump f t) = map fst f @ [t]"
    unfolding b using \<open>t \<notin> fst ` set f\<close> by (simp add: update_keys)
  show ?thesis
    unfolding tabulates_def
  proof (intro conjI ballI)
    show "map fst (bump f t) = first_seen (ts @ [t])"
      using keys assms(1) False by (simp add: tabulates_def first_seen_snoc)
    fix k assume k: "k \<in> set (ts @ [t])"
    show "map_of (bump f t) k = Some (Count (count_list (ts @ [t]) k))"
      using assms(1) k False unfolding b by (auto simp: tabulates_def update_conv')
  qed
qed


lemma tabulates_fold:
  "tabulates f ts \<Longrightarrow> \<forall>t\<in>set us. inherited t = None \<Longrightarrow>
   tabulates (fold (\<lambda>t f. bump f t) us f) (ts @ us)"
proof (induction us arbitrary: f ts)
  case Nil
  then show ?case by simp
next
  case (Cons u us)
  from Cons.prems have "tabulates (bump f u) (ts @ [u])" by (simp add: tabulates_bump)
  moreover from Cons.prems have "\<forall>t\<in>set us. inherited t = None" by simp
  ultimately have "tabulates (fold (\<lambda>t f. bump f t) us (bump f u)) ((ts @ [u]) @ us)"
    by (rule Cons.IH)
  then show ?case by simp
qed

lemma fold_fold_concat: "fold (\<lambda>x a. fold g (h x) a) xs a = fold g (concat (map h xs)) a"
  by (induction xs arbitrary: a) simp_all

lemma tabulate_fold: "tabulate ds = fold (\<lambda>t f. bump f t) (all_tokens ds) []"
  by (simp add: tabulate_def all_tokens_def fold_fold_concat)

lemma inherited_None: "inherited t = None \<longleftrightarrow> t \<noteq> ''constructor'' \<and> t \<noteq> ''__proto__''"
  by (simp add: inherited_def)

lemma tabulates_tabulate:
  assumes "''constructor'' \<notin> set (all_tokens ds)" and "''__proto__'' \<notin> set (all_tokens ds)"
  shows "tabulates (tabulate ds) (all_tokens ds)"
proof -
  have "tabulates [] []" by (simp add: tabulates_def first_seen_def)
  moreover have "\<forall>t\<in>set (all_tokens ds). inherited t = None"
    using assms by (auto simp: inherited_None)
  ultimately have "tabulates (fold (\<lambda>t f. bump f t) (all_tokens ds) []) ([] @ all_tokens ds)"
    by (rule tabulates_fold)
  then show ?thesis by (simp add: tabulate_fold)
qed

lemma tabulates_keys: "tabulates f ts \<Longrightarrow> Object_keys f = key_order ts"
  by (simp add: tabulates_def Object_keys_def key_order_def)

lemma tabulates_counts:
  assumes "tabulates f ts"
  shows "list_all (\<lambda>p. is_count (snd p)) f" and "\<forall>k\<in>set ts. count_of f k = count_list ts k"
proof -
  have d: "distinct (map fst f)" using assms by (simp add: tabulates_def)
  have "is_count c" if "(k, c) \<in> set f" for k c
  proof -
    from d that have "map_of f k = Some c" by (rule map_of_is_SomeI)
    moreover have "map fst f = first_seen ts" using assms by (simp add: tabulates_def)
    then have "set (map fst f) = set ts" by (simp only: set_first_seen)
    with that have "k \<in> set ts" by force
    ultimately show ?thesis using assms by (auto simp: tabulates_def is_count_def)
  qed
  then show "list_all (\<lambda>p. is_count (snd p)) f" by (auto simp: list_all_iff)
  show "\<forall>k\<in>set ts. count_of f k = count_list ts k"
    using assms by (simp add: tabulates_def count_of_def)
qed

lemma insort_key_cong_set:
  "\<forall>y\<in>set (x # xs). f y = g y \<Longrightarrow> insort_key f x xs = insort_key g x xs"
  by (induction xs) simp_all

lemma sort_key_cong_set: "\<forall>x\<in>set xs. f x = g x \<Longrightarrow> sort_key f xs = sort_key g xs"
proof (induction xs)
  case Nil
  then show ?case by simp
next
  case (Cons x xs)
  then have "sort_key f xs = sort_key g xs" by simp
  moreover have "\<forall>y\<in>set (x # sort_key g xs). f y = g y" using Cons.prems by simp
  ultimately show ?case using insort_key_cong_set [of x "sort_key g xs" f g] by simp
qed

lemma sort_key_short: "length xs < 2 \<Longrightarrow> sort_key f xs = xs"
proof (cases xs)
  case Nil
  then show ?thesis by simp
next
  case (Cons x ys)
  assume "length xs < 2"
  with Cons have "ys = []" by simp
  with Cons show ?thesis by simp
qed

lemma set_key_order [simp]: "set (key_order ts) = set ts"
  by (auto simp: key_order_def)

lemma distinct_key_order [simp]: "distinct (key_order ts)"
  by (auto simp: key_order_def)

lemma buildVocab_eq:
  assumes "0 \<le> maxV"
    and "''constructor'' \<notin> set (all_tokens ds)" and "''__proto__'' \<notin> set (all_tokens ds)"
  shows "buildVocab engine ds maxV = vocab_key_order ds maxV"
proof -
  let ?f = "tabulate ds"
  let ?ts = "all_tokens ds"
  have t: "tabulates ?f ?ts" using assms(2,3) by (rule tabulates_tabulate)
  have k: "Object_keys ?f = key_order ?ts" using t by (rule tabulates_keys)
  have "sort_by_count engine ?f (key_order ?ts) = sort_key (\<lambda>k. - int (count_of ?f k)) (key_order ?ts)"
    using tabulates_counts(1) [OF t] by (simp add: sort_by_count_def sort_key_short)
  also have "\<dots> = sort_key (\<lambda>k. - int (frequency ds k)) (key_order ?ts)"
    using tabulates_counts(2) [OF t] by (intro sort_key_cong_set) (simp add: frequency_def)
  finally show ?thesis
    using assms(1) by (simp add: buildVocab_def Let_def k slice0_def vocab_key_order_def)
qed


lemma vocab_key_order_properties:
  assumes "0 \<le> maxV"
  shows "distinct (vocab_key_order ds maxV)"
    and "set (vocab_key_order ds maxV) \<subseteq> set (all_tokens ds)"
    and "length (vocab_key_order ds maxV) = min (nat maxV) (card (set (all_tokens ds)))"
    and "sorted_wrt (\<lambda>a b. frequency ds b \<le> frequency ds a) (vocab_key_order ds maxV)"
    and "\<forall>t\<in>set (all_tokens ds) - set (vocab_key_order ds maxV).
           \<forall>u\<in>set (vocab_key_order ds maxV). frequency ds t \<le> frequency ds u"
    and "\<forall>c. prefix (filter (\<lambda>t. frequency ds t = c) (vocab_key_order ds maxV))
                  (filter (\<lambda>t. frequency ds t = c) (key_order (all_tokens ds)))"
proof -
  let ?g = "\<lambda>t. - int (frequency ds t)"
  let ?ts = "all_tokens ds"
  let ?full = "sort_key ?g (key_order ?ts)"
  let ?r = "vocab_key_order ds maxV"
  have r: "?r = take (nat maxV) ?full" by (simp add: vocab_key_order_def)
  have full: "?full = ?r @ drop (nat maxV) ?full" unfolding r by simp
  have pre: "prefix ?r ?full" unfolding r by (rule take_is_prefix)
  have "sorted (map ?g ?full)" by simp
  then have s: "sorted_wrt (\<lambda>a b. frequency ds b \<le> frequency ds a) ?full"
    by (simp add: sorted_map)
  show "distinct ?r" unfolding r by simp
  show "set ?r \<subseteq> set ?ts" unfolding r using set_take_subset [of "nat maxV" ?full] by simp
  have "length (key_order ?ts) = card (set ?ts)"
    using distinct_card [of "key_order ?ts"] by simp
  then show "length ?r = min (nat maxV) (card (set ?ts))" unfolding r by simp
  show "sorted_wrt (\<lambda>a b. frequency ds b \<le> frequency ds a) ?r"
    using pre s by (rule sorted_wrt_prefix)
  show "\<forall>t\<in>set ?ts - set ?r. \<forall>u\<in>set ?r. frequency ds t \<le> frequency ds u"
  proof (intro ballI)
    fix t u assume t: "t \<in> set ?ts - set ?r" and u: "u \<in> set ?r"
    have "set ?full = set ?ts" by simp
    with t full have "t \<in> set (drop (nat maxV) ?full)"
      by (metis DiffD1 DiffD2 Un_iff set_append)
    moreover from s full have "sorted_wrt (\<lambda>a b. frequency ds b \<le> frequency ds a)
        (?r @ drop (nat maxV) ?full)" by simp
    ultimately show "frequency ds t \<le> frequency ds u"
      using u by (simp add: sorted_wrt_append)
  qed
  show "\<forall>c. prefix (filter (\<lambda>t. frequency ds t = c) ?r)
                  (filter (\<lambda>t. frequency ds t = c) (key_order ?ts))"
  proof
    fix c
    have "filter (\<lambda>t. ?g t = - int c) ?full = filter (\<lambda>t. ?g t = - int c) (key_order ?ts)"
      by (rule sort_key_stable)
    then have "filter (\<lambda>t. frequency ds t = c) ?full = filter (\<lambda>t. frequency ds t = c) (key_order ?ts)"
      by simp
    with filter_mono_prefix [OF pre, of "\<lambda>t. frequency ds t = c"]
    show "prefix (filter (\<lambda>t. frequency ds t = c) ?r)
                  (filter (\<lambda>t. frequency ds t = c) (key_order ?ts))" by simp
  qed
qed

text \<open>
  Claim C8, amended. For a document set none of whose tokens is \<open>constructor\<close> or
  \<open>__proto__\<close>, and a bound \<open>maxV\<close> that is not negative, \<open>buildVocab\<close> returns the
  first \<open>maxV\<close> (all, if there are fewer) of the distinct terms sorted by descending
  total frequency, terms of equal frequency standing in the key order of the frequency
  object: the terms that are array indices by ascending value, then the other terms in
  first-seen order. The terms it returns are distinct terms of the documents, sorted by
  non-increasing frequency, and no term it leaves out is more frequent than one it returns.
\<close>

theorem buildVocab_key_order:
  assumes "0 \<le> maxV"
    and "''constructor'' \<notin> set (all_tokens ds)" and "''__proto__'' \<notin> set (all_tokens ds)"
  shows "buildVocab engine ds maxV = vocab_key_order ds maxV
     \<and> distinct (buildVocab engine ds maxV)
     \<and> set (buildVocab engine ds maxV) \<subseteq> set (all_tokens ds)
     \<and> length (buildVocab engine ds maxV) = min (nat maxV) (card (set (all_tokens ds)))
     \<and> sorted_wrt (\<lambda>a b. frequency ds b \<le> frequency ds a) (buildVocab engine ds maxV)
     \<and> (\<forall>t\<in>set (all_tokens ds) - set (buildVocab engine ds maxV).
           \<forall>u\<in>set (buildVocab engine ds maxV). frequency ds t \<le> frequency ds u)
     \<and> (\<forall>c. prefix (filter (\<lambda>t. frequency ds t = c) (buildVocab engine ds maxV))
                  (filter (\<lambda>t. frequency ds t = c) (key_order (all_tokens ds))))"
  unfolding buildVocab_eq [OF assms]
  using vocab_key_order_properties [OF assms(1), of ds] by blast

text \<open>
  In \<open>Call 112\<close> both terms occur once and \<open>call\<close> is seen first, but \<open>112\<close> is an
  array index and comes first among the keys of the frequency object.
\<close>

theorem buildVocab_numeric_term_first:
  "buildVocab engine_id [doc_call] 400 = [''112'', ''call'']
   \<and> vocab_first_seen [doc_call] 400 = [''call'', ''112'']
   \<and> frequency [doc_call] ''call'' = frequency [doc_call] ''112''"
  by code_simp

theorem buildVocab_key_order_witness:
  "(0::int) \<le> 400
   \<and> ''constructor'' \<notin> set (all_tokens [doc_calls])
   \<and> ''__proto__'' \<notin> set (all_tokens [doc_calls])
   \<and> buildVocab engine_id [doc_calls] 400 = vocab_key_order [doc_calls] 400
   \<and> buildVocab engine_id [doc_calls] 400 = [''call'', ''112'', ''a'', ''friend'']
   \<and> all_tokens [doc_calls] = [''call'', ''112'', ''call'', ''a'', ''friend'']"
proof -
  have t: "all_tokens [doc_calls] = [''call'', ''112'', ''call'', ''a'', ''friend'']" by code_simp
  have a: "(0::int) \<le> 400" by simp
  have b: "''constructor'' \<notin> set (all_tokens [doc_calls])" unfolding t by simp
  have c: "''__proto__'' \<notin> set (all_tokens [doc_calls])" unfolding t by simp
  from buildVocab_key_order [OF a b c, of engine_id]
  have d: "buildVocab engine_id [doc_calls] 400 = vocab_key_order [doc_calls] 400" by blast
  have e: "buildVocab engine_id [doc_calls] 400 = [''call'', ''112'', ''a'', ''friend'']" by code_simp
  show ?thesis by (intro conjI a b c d e t)
qed


text \<open>
  The two inherited names: \<open>__proto__\<close> never becomes a key, however often it occurs,
  and \<open>constructor\<close> holds a string, which leaves the order to the engine.
\<close>

lemma buildVocab_proto:
  "buildVocab engine_id [\<lparr>docId = ''a.txt'', docText = ''__proto__ __proto__ a''\<rparr>] 400 = [''a'']"
  by code_simp

lemma buildVocab_constructor:
  "buildVocab engine [\<lparr>docId = ''a.txt'', docText = ''constructor a''\<rparr>] 400
     = take 400 (engine [(''constructor'', Text ''function Object() { [native code] }1''),
                          (''a'', Count 1)] [''constructor'', ''a''])"
proof -
  have t: "tabulate [\<lparr>docId = ''a.txt'', docText = ''constructor a''\<rparr>]
      = [(''constructor'', Text ''function Object() { [native code] }1''), (''a'', Count 1)]"
    by code_simp
  have k: "Object_keys [(''constructor'', Text ''function Object() { [native code] }1''), (''a'', Count 1)]
      = [''constructor'', ''a'']"
    by code_simp
  show ?thesis
    unfolding buildVocab_def Let_def t k
    by (simp add: sort_by_count_def is_count_def slice0_def)
qed

subsection \<open>Provider rotation among other requests\<close>

lemma awaitProvider_alone:
  "\<forall>h. others h = 0 \<Longrightarrow> awaitProvider others net p q s = callProvider net p q s"
  by (simp add: awaitProvider_def callProvider_def)

lemma rotation_among_alone:
  "\<forall>h. others h = 0 \<Longrightarrow>
   rotation_among cfg others net q n tried le s = rotation cfg net q n tried le s"
proof (induction n arbitrary: tried le s)
  case 0
  then show ?case by simp
next
  case (Suc n)
  then show ?case
    by (simp add: awaitProvider_alone split: prod.splits option.splits sum.splits)
qed

lemma generate_among_alone:
  assumes "\<forall>h. others h = 0"
  shows "generateWithRotation_among cfg others net q m s = generateWithRotation cfg net q m s"
  unfolding generateWithRotation_among_def generateWithRotation_def Let_def
  by (simp add: rotation_among_alone [OF assms])

lemma errors_of_append [simp]: "errors_of (xs @ ys) = errors_of xs @ errors_of ys"
  by (induction xs rule: errors_of.induct) auto

lemma rotation_among_all_fail:
  assumes "providers cfg \<noteq> []"
    and "\<forall>h p. p \<in> set (providers cfg) \<longrightarrow> isl (net h p q)"
  shows "\<exists>new k. rotation_among cfg others net q n tried le s
           = (Inl (final_error le (errors_of new)),
              s\<lparr>providerIndex := k, journal := journal s @ new\<rparr>)
         \<and> distinct (calls_of new)
         \<and> set (calls_of new) \<inter> set tried = {}
         \<and> set (calls_of new) \<subseteq> set (providers cfg)
         \<and> length (calls_of new) \<le> n
         \<and> length (errors_of new) = length (calls_of new)
         \<and> (tried = [] \<and> 0 < n \<longrightarrow> calls_of new \<noteq> [])"
proof (induction n arbitrary: tried le s)
  case 0
  have "rotation_among cfg others net q 0 tried le s
           = (Inl (final_error le (errors_of [])),
              s\<lparr>providerIndex := providerIndex s, journal := journal s @ []\<rparr>)
         \<and> distinct (calls_of [])
         \<and> set (calls_of []) \<inter> set tried = {}
         \<and> set (calls_of []) \<subseteq> set (providers cfg)
         \<and> length (calls_of []) \<le> 0
         \<and> length (errors_of []) = length (calls_of [])
         \<and> (tried = [] \<and> 0 < (0::nat) \<longrightarrow> calls_of [] \<noteq> [])"
    by (simp add: final_error_def)
  then show ?case by blast
next
  case (Suc n)
  define p where "p = providers cfg ! (providerIndex s mod length (providers cfg))"
  define s1 where "s1 = s\<lparr>providerIndex := providerIndex s + 1\<rparr>"
  have g: "getNextProvider cfg s = (Some p, s1)"
    using assms(1) by (simp add: getNextProvider_some p_def s1_def)
  have mem: "p \<in> set (providers cfg)" using assms(1) by (simp add: p_def)
  show ?case
  proof (cases "p \<in> set tried")
    case True
    from Suc.IH [of tried le s1] obtain new k where
      new: "rotation_among cfg others net q n tried le s1
           = (Inl (final_error le (errors_of new)),
              s1\<lparr>providerIndex := k, journal := journal s1 @ new\<rparr>)"
        "distinct (calls_of new)" "set (calls_of new) \<inter> set tried = {}"
        "set (calls_of new) \<subseteq> set (providers cfg)" "length (calls_of new) \<le> n"
        "length (errors_of new) = length (calls_of new)" by blast
    have "rotation_among cfg others net q (Suc n) tried le s
           = (Inl (final_error le (errors_of new)),
              s\<lparr>providerIndex := k, journal := journal s @ new\<rparr>)"
      using g True new(1) by (simp add: s1_def)
    moreover have "tried \<noteq> []" using True by auto
    ultimately show ?thesis using new(2-6) by (metis le_SucI)
  next
    case nt: False
    define r where "r = net (journal s1) p q"
    define s2 where "s2 = s1\<lparr>providerIndex := providerIndex s1 + others (journal s1),
                             journal := journal s1 @ [Call p q r]\<rparr>"
    have c: "awaitProvider others net p q s1 = (r, s2)"
      by (simp add: awaitProvider_def r_def s2_def Let_def)
    from assms(2) mem have "isl r" by (simp add: r_def)
    then obtain e where e: "r = Inl e" by (cases r) auto
    have step: "rotation_among cfg others net q (Suc n) tried le s
         = rotation_among cfg others net q n (p # tried) (Some e) s2"
      using g nt c e by simp
    from Suc.IH [of "p # tried" "Some e" s2] obtain new k where
      new: "rotation_among cfg others net q n (p # tried) (Some e) s2
           = (Inl (final_error (Some e) (errors_of new)),
              s2\<lparr>providerIndex := k, journal := journal s2 @ new\<rparr>)"
        "distinct (calls_of new)" "set (calls_of new) \<inter> set (p # tried) = {}"
        "set (calls_of new) \<subseteq> set (providers cfg)" "length (calls_of new) \<le> n"
        "length (errors_of new) = length (calls_of new)" by blast
    let ?new = "Call p q (Inl e) # new"
    have 1: "rotation_among cfg others net q (Suc n) tried le s
           = (Inl (final_error le (errors_of ?new)),
              s\<lparr>providerIndex := k, journal := journal s @ ?new\<rparr>)"
      using step new(1) e by (simp add: s2_def s1_def final_error_Cons)
    have 2: "distinct (calls_of ?new)" using new(2,3) by auto
    have 3: "set (calls_of ?new) \<inter> set tried = {}" using new(3) nt by auto
    have 4: "set (calls_of ?new) \<subseteq> set (providers cfg)" using new(4) mem by auto
    have 5: "length (calls_of ?new) \<le> Suc n" using new(5) by simp
    have 6: "length (errors_of ?new) = length (calls_of ?new)" using new(6) by simp
    have 7: "calls_of ?new \<noteq> []" by simp
    from 1 2 3 4 5 6 7 show ?thesis by blast
  qed
qed


lemma generate_among_all_fail:
  assumes "\<forall>h p. p \<in> set (providers cfg) \<longrightarrow> isl (net h p prompt)"
  shows "\<exists>e s'. generateWithRotation_among cfg others net prompt maxTries s = (Inl e, s')
     \<and> length (calls_of (appended s s')) \<le> nat (min maxTries (int (length (providers cfg))))
     \<and> ((\<forall>h. others h = 0) \<longrightarrow>
           length (calls_of (appended s s')) = nat (min maxTries (int (length (providers cfg)))))
     \<and> (0 < min maxTries (int (length (providers cfg))) \<longrightarrow> calls_of (appended s s') \<noteq> [])
     \<and> distinct (calls_of (appended s s'))
     \<and> set (calls_of (appended s s')) \<subseteq> set (providers cfg)
     \<and> length (errors_of (appended s s')) = length (calls_of (appended s s'))
     \<and> e = (if providers cfg = [] then Error ''No providers configured''
            else if errors_of (appended s s') = [] then Error ''All providers failed''
            else last (errors_of (appended s s')))"
proof (cases "providers cfg = []")
  case True
  then show ?thesis by (simp add: generateWithRotation_among_def appended_def)
next
  case False
  define n where "n = nat (min maxTries (int (length (providers cfg))))"
  define s0 where "s0 = s\<lparr>journal := journal s @ [Generate prompt maxTries]\<rparr>"
  from rotation_among_all_fail [where cfg = cfg and net = net and q = prompt and others = others
      and n = n and tried = "[]" and le = None and s = s0] False assms
  obtain new k where
    new: "rotation_among cfg others net prompt n [] None s0
           = (Inl (final_error None (errors_of new)),
              s0\<lparr>providerIndex := k, journal := journal s0 @ new\<rparr>)"
      "distinct (calls_of new)" "set (calls_of new) \<subseteq> set (providers cfg)"
      "length (calls_of new) \<le> n" "length (errors_of new) = length (calls_of new)"
      "0 < n \<longrightarrow> calls_of new \<noteq> []" by auto
  define s' where "s' = s0\<lparr>providerIndex := k, journal := journal s0 @ new\<rparr>"
  have app: "appended s s' = Generate prompt maxTries # new"
    by (simp add: appended_def s'_def s0_def)
  have gen: "generateWithRotation_among cfg others net prompt maxTries s
        = (Inl (final_error None (errors_of new)), s')"
    using False new(1) by (simp add: generateWithRotation_among_def Let_def n_def s0_def s'_def)
  have fe: "final_error None (errors_of new)
      = (if errors_of new = [] then Error ''All providers failed'' else last (errors_of new))"
    by (simp add: final_error_def)
  have exact: "length (calls_of new) = n" if quiet: "\<forall>h. others h = 0"
  proof -
    from generate_all_fail [of cfg net prompt maxTries s] assms obtain e1 s1 where
      a: "generateWithRotation cfg net prompt maxTries s = (Inl e1, s1)"
        "length (calls_of (appended s s1)) = nat (min maxTries (int (length (providers cfg))))"
      by blast
    from generate_among_alone [OF quiet, of cfg net prompt maxTries s] gen a(1)
    have "s1 = s'" by simp
    with a(2) app show ?thesis by (simp add: n_def)
  qed
  have pos: "calls_of new \<noteq> []" if "0 < min maxTries (int (length (providers cfg)))"
    using that new(6) by (simp add: n_def)
  have "generateWithRotation_among cfg others net prompt maxTries s
          = (Inl (final_error None (errors_of new)), s')
     \<and> length (calls_of (appended s s')) \<le> nat (min maxTries (int (length (providers cfg))))
     \<and> ((\<forall>h. others h = 0) \<longrightarrow>
           length (calls_of (appended s s')) = nat (min maxTries (int (length (providers cfg)))))
     \<and> (0 < min maxTries (int (length (providers cfg))) \<longrightarrow> calls_of (appended s s') \<noteq> [])
     \<and> distinct (calls_of (appended s s'))
     \<and> set (calls_of (appended s s')) \<subseteq> set (providers cfg)
     \<and> length (errors_of (appended s s')) = length (calls_of (appended s s'))
     \<and> final_error None (errors_of new)
         = (if providers cfg = [] then Error ''No providers configured''
            else if errors_of (appended s s') = [] then Error ''All providers failed''
            else last (errors_of (appended s s')))"
    unfolding app using gen new(2-5) exact pos False fe by (simp add: n_def)
  then show ?thesis by blast
qed


text \<open>
  Claim C2, amended. When every configured provider fails on the prompt, whatever
  happened before and whatever other requests do meanwhile, \<open>generateWithRotation\<close>
  fails, having called at most \<open>min maxTries (number of configured providers)\<close>
  providers, all distinct and all configured, each of which failed; it called exactly
  that many when no other request advanced \<open>providerIndex\<close> during its calls, and at
  least one when that minimum is positive. The error is the one of the last call,
  \<open>All providers failed\<close> when no call was made, and \<open>No providers configured\<close> when no
  provider is configured.
\<close>

theorem rotation_among_requests:
  assumes "\<forall>h p. p \<in> set (providers cfg) \<longrightarrow> isl (net h p prompt)"
  shows "\<exists>e s'. generateWithRotation_among cfg others net prompt maxTries s = (Inl e, s')
     \<and> length (calls_of (appended s s')) \<le> nat (min maxTries (int (length (providers cfg))))
     \<and> ((\<forall>h. others h = 0) \<longrightarrow>
           length (calls_of (appended s s')) = nat (min maxTries (int (length (providers cfg)))))
     \<and> (0 < min maxTries (int (length (providers cfg))) \<longrightarrow> calls_of (appended s s') \<noteq> [])
     \<and> distinct (calls_of (appended s s'))
     \<and> set (calls_of (appended s s')) \<subseteq> set (providers cfg)
     \<and> length (errors_of (appended s s')) = length (calls_of (appended s s'))
     \<and> e = (if providers cfg = [] then Error ''No providers configured''
            else if errors_of (appended s s') = [] then Error ''All providers failed''
            else last (errors_of (appended s s')))"
  using assms by (rule generate_among_all_fail)

lemma providers_cfg_all: "providers cfg_all = [google, openai, huggingface]"
  by (simp add: providers_def cfg_all_def)

lemma three_attempts: "nat (min 3 (int (length (providers cfg_all)))) = Suc (Suc (Suc 0))"
  by (simp add: providers_cfg_all)

text \<open>
  Three providers are configured and all fail. While each call of this request is
  awaited, two other requests take a provider: after the call of \<open>google\<close> the cursor
  is back at \<open>google\<close>, which is skipped and costs the second attempt, and the third
  attempt calls \<open>openai\<close>. Two providers were called, not three.
\<close>

theorem rotation_skips_among_requests:
  "isl (net_down [] google ''hi'') \<and> isl (net_down [] openai ''hi'')
   \<and> isl (net_down [] huggingface ''hi'')
   \<and> generateWithRotation_among cfg_all two_others net_down ''hi'' 3 initial_state
       = (Inl (Error ''unavailable''),
          initial_state\<lparr>providerIndex := 7,
            journal := [Generate ''hi'' 3, Call google ''hi'' (Inl (Error ''unavailable'')),
                        Call openai ''hi'' (Inl (Error ''unavailable''))]\<rparr>)
   \<and> min 3 (int (length (providers cfg_all))) = 3"
proof -
  have g: "generateWithRotation_among cfg_all two_others net_down ''hi'' 3 initial_state
       = (Inl (Error ''unavailable''),
          initial_state\<lparr>providerIndex := 7,
            journal := [Generate ''hi'' 3, Call google ''hi'' (Inl (Error ''unavailable'')),
                        Call openai ''hi'' (Inl (Error ''unavailable''))]\<rparr>)"
    unfolding generateWithRotation_among_def Let_def three_attempts
    by (simp add: providers_cfg_all getNextProvider_def awaitProvider_def net_down_def
          two_others_def initial_state_def Let_def)
  show ?thesis using g by (simp add: net_down_def providers_cfg_all)
qed

theorem rotation_among_requests_witness:
  "isl (net_down [] google ''hi'') \<and> alone [] = 0
   \<and> generateWithRotation_among cfg_all alone net_down ''hi'' 3 initial_state
       = (Inl (Error ''unavailable''),
          initial_state\<lparr>providerIndex := 3,
            journal := [Generate ''hi'' 3, Call google ''hi'' (Inl (Error ''unavailable'')),
                        Call openai ''hi'' (Inl (Error ''unavailable'')),
                        Call huggingface ''hi'' (Inl (Error ''unavailable''))]\<rparr>)
   \<and> length (calls_of (appended initial_state
          (initial_state\<lparr>providerIndex := 3,
            journal := [Generate ''hi'' 3, Call google ''hi'' (Inl (Error ''unavailable'')),
                        Call openai ''hi'' (Inl (Error ''unavailable'')),
                        Call huggingface ''hi'' (Inl (Error ''unavailable''))]\<rparr>)))
       = nat (min 3 (int (length (providers cfg_all))))
   \<and> 0 < min 3 (int (length (providers cfg_all)))
   \<and> calls_of (appended initial_state
          (initial_state\<lparr>providerIndex := 3,
            journal := [Generate ''hi'' 3, Call google ''hi'' (Inl (Error ''unavailable'')),
                        Call openai ''hi'' (Inl (Error ''unavailable'')),
                        Call huggingface ''hi'' (Inl (Error ''unavailable''))]\<rparr>)) \<noteq> []"
proof -
  let ?s3 = "initial_state\<lparr>providerIndex := 3,
            journal := [Generate ''hi'' 3, Call google ''hi'' (Inl (Error ''unavailable'')),
                        Call openai ''hi'' (Inl (Error ''unavailable'')),
                        Call huggingface ''hi'' (Inl (Error ''unavailable''))]\<rparr>"
  have a: "\<forall>h p. p \<in> set (providers cfg_all) \<longrightarrow> isl (net_down h p ''hi'')"
    by (simp add: net_down_def)
  have q: "\<forall>h. alone h = 0" by (simp add: alone_def)
  have g: "generateWithRotation_among cfg_all alone net_down ''hi'' 3 initial_state
       = (Inl (Error ''unavailable''), ?s3)"
    unfolding generateWithRotation_among_def Let_def three_attempts
    by (simp add: providers_cfg_all getNextProvider_def awaitProvider_def net_down_def
          alone_def initial_state_def Let_def)
  from rotation_among_requests [of cfg_all net_down "''hi''" alone 3 initial_state] a
  obtain e s' where
    r: "generateWithRotation_among cfg_all alone net_down ''hi'' 3 initial_state = (Inl e, s')"
       "(\<forall>h. alone h = 0) \<longrightarrow>
           length (calls_of (appended initial_state s')) = nat (min 3 (int (length (providers cfg_all))))"
       "0 < min 3 (int (length (providers cfg_all))) \<longrightarrow> calls_of (appended initial_state s') \<noteq> []"
    by blast
  have "s' = snd (generateWithRotation_among cfg_all alone net_down ''hi'' 3 initial_state)"
    by (simp only: r(1) snd_conv)
  also have "\<dots> = ?s3" by (simp only: g snd_conv)
  finally have "s' = ?s3" .
  with r(2) q have l: "length (calls_of (appended initial_state ?s3))
       = nat (min 3 (int (length (providers cfg_all))))" by blast
  have i: "isl (net_down [] google ''hi'')" by (simp add: net_down_def)
  have z: "alone [] = 0" by (simp add: alone_def)
  have m: "0 < min 3 (int (length (providers cfg_all)))" by (simp add: providers_cfg_all)
  from r(3) m \<open>s' = ?s3\<close> have c: "calls_of (appended initial_state ?s3) \<noteq> []" by blast
  show ?thesis by (intro conjI i z g l m c)
qed

end
